theory Spec2Isabelle
  imports Complex_Main "HOL-Library.Word"
begin

section \<open>The quasar matching core: Order, Trade, OrderBook, MatchingEngine\<close>

text \<open>
  A shallow embedding of \<^verbatim>\<open>services/matching-engine\<close>: \<^verbatim>\<open>core/Order.h\<close>,
  \<^verbatim>\<open>core/Order.cpp\<close>, \<^verbatim>\<open>core/Trade.h\<close>, \<^verbatim>\<open>core/OrderBook.cpp\<close> and
  \<^verbatim>\<open>core/MatchingEngine.cpp\<close>.

  \<^item> \<^verbatim>\<open>uint64_t\<close> is \<open>64 word\<close> and \<^verbatim>\<open>uint32_t\<close> is \<open>32 word\<close>: additions and
    subtractions wrap, as in C++.
  \<^item> A \<^verbatim>\<open>double\<close> price is a real number or NaN (type \<open>double\<close>). No function of the
    core checks a price, so \<^verbatim>\<open>submit_order\<close> takes NaN like any other value. Prices are
    compared and copied; the one arithmetic operation on them, the subtraction in
    \<^verbatim>\<open>get_spread\<close>, is a parameter of the model. The two infinities order like
    numbers beyond all others and are not told apart from them.
  \<^item> Wall-clock fields (\<^verbatim>\<open>created_time\<close>, \<^verbatim>\<open>updated_time\<close>, \<^verbatim>\<open>timestamp\<close>) and the
    mutexes are left out: no function below reads a clock value, and every operation is
    modelled as it runs under its lock, one call after the other.
\<close>

type_synonym u64 = "64 word"
type_synonym u32 = "32 word"

subsection \<open>Doubles\<close>

text \<open>The comparisons of IEEE 754 as C++ has them: \<open>dless\<close> is \<^verbatim>\<open><\<close> and \<open>dequal\<close> is
  \<^verbatim>\<open>==\<close>; both are false as soon as one side is NaN, so \<^verbatim>\<open>a != b\<close>, which is
  \<open>\<not> dequal a b\<close>, is true then, and \<^verbatim>\<open>a > b\<close> is \<open>dless b a\<close>.\<close>

datatype double = Fin real | NaN

fun dless :: "double \<Rightarrow> double \<Rightarrow> bool" where
  "dless (Fin a) (Fin b) = (a < b)"
| "dless NaN b = False"
| "dless a NaN = False"

fun dequal :: "double \<Rightarrow> double \<Rightarrow> bool" where
  "dequal (Fin a) (Fin b) = (a = b)"
| "dequal NaN b = False"
| "dequal a NaN = False"

subsection \<open>Order.h\<close>

datatype Side = BUY | SELL

datatype OrderType = LIMIT | MARKET

datatype OrderStatus = NEW | PARTIALLY_FILLED | FILLED | CANCELLED | REJECTED

record Order =
  order_id :: u64
  client_id :: u64
  symbol :: string
  side :: Side
  otype :: OrderType
  price :: double
  quantity :: u64
  filled_quantity :: u64
  status :: OrderStatus

text \<open>The six-argument constructor: \<^verbatim>\<open>filled_quantity(0), status(NEW)\<close>, type by default LIMIT.\<close>

definition new_Order :: "u64 \<Rightarrow> u64 \<Rightarrow> string \<Rightarrow> Side \<Rightarrow> double \<Rightarrow> u64 \<Rightarrow> Order" where
  "new_Order oid client symb s p q =
     \<lparr>order_id = oid, client_id = client, symbol = symb, side = s, otype = LIMIT,
      price = p, quantity = q, filled_quantity = 0, status = NEW\<rparr>"

definition remaining_quantity :: "Order \<Rightarrow> u64" where
  "remaining_quantity ord = quantity ord - filled_quantity ord"

definition is_filled :: "Order \<Rightarrow> bool" where
  "is_filled ord \<longleftrightarrow> filled_quantity ord \<ge> quantity ord"

definition is_buy :: "Order \<Rightarrow> bool" where
  "is_buy ord \<longleftrightarrow> side ord = BUY"

definition is_sell :: "Order \<Rightarrow> bool" where
  "is_sell ord \<longleftrightarrow> side ord = SELL"

text \<open>\<^verbatim>\<open>BuyOrderComparator\<close> and \<^verbatim>\<open>SellOrderComparator\<close>: \<open>True\<close> when \<open>a\<close> has lower
  priority than \<open>b\<close>. The source tests \<^verbatim>\<open>a->price != b->price\<close> and then
  \<^verbatim>\<open>a->price < b->price\<close> (\<^verbatim>\<open>></\<close> for the sell side). When one of the two prices is NaN
  the first test is true and the second false: the comparator puts neither order below
  the other, whatever the other price is.\<close>

definition BuyOrderComparator :: "Order \<Rightarrow> Order \<Rightarrow> bool" where
  "BuyOrderComparator a b =
     (if \<not> dequal (price a) (price b) then dless (price a) (price b)
      else order_id a > order_id b)"

definition SellOrderComparator :: "Order \<Rightarrow> Order \<Rightarrow> bool" where
  "SellOrderComparator a b =
     (if \<not> dequal (price a) (price b) then dless (price b) (price a)
      else order_id a > order_id b)"

subsection \<open>Order.cpp\<close>

text \<open>\<^verbatim>\<open>Order::fill\<close>: clamp to the remaining quantity, add, then set the status.
  There is no check of the current status.\<close>

definition fill :: "Order \<Rightarrow> u64 \<Rightarrow> Order" where
  "fill ord fill_quantity =
     (let fq = (if fill_quantity > remaining_quantity ord then remaining_quantity ord
                else fill_quantity);
          ord1 = ord\<lparr>filled_quantity := filled_quantity ord + fq\<rparr>
      in if is_filled ord1 then ord1\<lparr>status := FILLED\<rparr>
         else if filled_quantity ord1 > 0 then ord1\<lparr>status := PARTIALLY_FILLED\<rparr>
         else ord1)"

text \<open>\<^verbatim>\<open>Order::cancel\<close> and \<^verbatim>\<open>Order::reject\<close>: an unconditional assignment.\<close>

definition cancel :: "Order \<Rightarrow> Order" where
  "cancel ord = ord\<lparr>status := CANCELLED\<rparr>"

definition reject :: "Order \<Rightarrow> Order" where
  "reject ord = ord\<lparr>status := REJECTED\<rparr>"

text \<open>The spec's \<open>is_active\<close> (the source has no such method; the claims use the notion):
  status NEW or PARTIALLY\_FILLED and a positive remaining quantity.\<close>

definition is_active :: "Order \<Rightarrow> bool" where
  "is_active ord \<longleftrightarrow>
     (status ord = NEW \<or> status ord = PARTIALLY_FILLED) \<and> remaining_quantity ord > 0"

subsection \<open>Trade.h\<close>

record Trade =
  trade_id :: u64
  taker_order_id :: u64
  maker_order_id :: u64
  taker_client_id :: u64
  maker_client_id :: u64
  t_symbol :: string
  t_price :: double
  t_quantity :: u64

subsection \<open>\<^verbatim>\<open>std::priority_queue\<close>\<close>

text \<open>
  \<^verbatim>\<open>std::priority_queue<Order*, std::vector<Order*>, Cmp>\<close> keeps its elements in a
  vector laid out as a binary heap: the parent of position \<open>i\<close> is position
  \<open>(i - 1) / 2\<close>. \<^verbatim>\<open>top\<close> is the front of the vector. \<^verbatim>\<open>push\<close> appends the element
  and calls \<^verbatim>\<open>std::push_heap\<close>, which moves it up as long as the comparator puts its
  parent below it (\<open>sift_up\<close>). \<^verbatim>\<open>pop\<close> calls \<^verbatim>\<open>std::pop_heap\<close> and drops the last
  position: the last element takes the place of the front and moves down, towards the
  child that the comparator does not put below the other, as long as the comparator puts
  it below that child (\<open>sift_down\<close>).

  The queue is modelled by that vector, so that \<^verbatim>\<open>top\<close> is what the comparisons made by
  the pushes and pops have left in front, whether or not the comparator is a strict weak
  order on the elements. When it is one, the front is an element that the comparator puts
  below no other (\<open>heap_top_max\<close>, \<open>is_heap_pq_push\<close>, \<open>is_heap_pq_pop\<close>), which is all
  that the C++ standard says about the two algorithms. When a NaN price keeps it from
  being one, the standard says nothing; the layout after a push is then the one that
  moving the new element up gives, and the layout after a pop the one of the textbook
  procedure above. The properties below that hold for every book use of a pop only that it
  removes the front and keeps the other elements (\<open>length_pq_pop\<close>, \<open>set_pq_pop\<close>).
\<close>

definition parent :: "nat \<Rightarrow> nat" where
  "parent i = (i - 1) div 2"

function sift_up :: "('a \<Rightarrow> 'a \<Rightarrow> bool) \<Rightarrow> 'a list \<Rightarrow> nat \<Rightarrow> 'a list" where
  "sift_up cmp xs i =
     (if i = 0 then xs
      else if cmp (xs ! parent i) (xs ! i)
           then sift_up cmp (xs[i := xs ! parent i, parent i := xs ! i]) (parent i)
           else xs)"
  by pat_completeness auto

termination sift_up
  by (relation "measure (\<lambda>(cmp, xs, i). i)") (auto simp: parent_def)

definition larger_child :: "('a \<Rightarrow> 'a \<Rightarrow> bool) \<Rightarrow> 'a list \<Rightarrow> nat \<Rightarrow> nat" where
  "larger_child cmp xs i =
     (if 2 * i + 2 < length xs \<and> cmp (xs ! (2 * i + 1)) (xs ! (2 * i + 2))
      then 2 * i + 2 else 2 * i + 1)"

function sift_down :: "('a \<Rightarrow> 'a \<Rightarrow> bool) \<Rightarrow> 'a list \<Rightarrow> nat \<Rightarrow> 'a list" where
  "sift_down cmp xs i =
     (if 2 * i + 1 < length xs \<and> cmp (xs ! i) (xs ! larger_child cmp xs i)
      then sift_down cmp (xs[i := xs ! larger_child cmp xs i, larger_child cmp xs i := xs ! i])
             (larger_child cmp xs i)
      else xs)"
  by pat_completeness auto

termination sift_down
  by (relation "measure (\<lambda>(cmp, xs, i). length xs - i)") (auto simp: larger_child_def)

text \<open>\<open>pq_push cmp xs x\<close> is \<^verbatim>\<open>push(x)\<close> on the queue \<open>xs\<close>; \<open>pq_pop cmp p ps\<close> is
  \<^verbatim>\<open>pop()\<close> on the non-empty queue \<open>p # ps\<close>. The source pops only after it has tested
  \<^verbatim>\<open>!empty()\<close>.\<close>

definition pq_push :: "('a \<Rightarrow> 'a \<Rightarrow> bool) \<Rightarrow> 'a list \<Rightarrow> 'a \<Rightarrow> 'a list" where
  "pq_push cmp xs x = sift_up cmp (xs @ [x]) (length xs)"

definition pq_pop :: "('a \<Rightarrow> 'a \<Rightarrow> bool) \<Rightarrow> 'a \<Rightarrow> 'a list \<Rightarrow> 'a list" where
  "pq_pop cmp p ps = (if ps = [] then [] else sift_down cmp (last ps # butlast ps) 0)"

declare sift_up.simps [simp del] sift_down.simps [simp del]

lemma parent_less: "0 < i \<Longrightarrow> parent i < i"
  by (simp add: parent_def)

lemma larger_child_bounds:
  "2 * i + 1 < length xs \<Longrightarrow> larger_child cmp xs i < length xs \<and> i < larger_child cmp xs i"
  by (simp add: larger_child_def)

lemma sift_up_stop: "i = 0 \<or> \<not> cmp (xs ! parent i) (xs ! i) \<Longrightarrow> sift_up cmp xs i = xs"
  by (subst sift_up.simps) auto

lemma sift_up_step:
  "0 < i \<Longrightarrow> cmp (xs ! parent i) (xs ! i) \<Longrightarrow>
   sift_up cmp xs i = sift_up cmp (xs[i := xs ! parent i, parent i := xs ! i]) (parent i)"
  by (subst sift_up.simps) simp

lemma sift_down_stop:
  "\<not> (2 * i + 1 < length xs \<and> cmp (xs ! i) (xs ! larger_child cmp xs i)) \<Longrightarrow>
   sift_down cmp xs i = xs"
  by (subst sift_down.simps) auto

lemma sift_down_step:
  "2 * i + 1 < length xs \<Longrightarrow> cmp (xs ! i) (xs ! larger_child cmp xs i) \<Longrightarrow>
   sift_down cmp xs i =
     sift_down cmp (xs[i := xs ! larger_child cmp xs i, larger_child cmp xs i := xs ! i])
       (larger_child cmp xs i)"
  by (subst sift_down.simps) simp

lemma length_sift_up [simp]: "length (sift_up cmp xs i) = length xs"
proof (induction cmp xs i rule: sift_up.induct)
  case (1 cmp xs i)
  show ?case
  proof (cases "0 < i \<and> cmp (xs ! parent i) (xs ! i)")
    case True
    with 1 show ?thesis by (simp add: sift_up_step)
  next
    case False
    then show ?thesis by (simp add: sift_up_stop)
  qed
qed

lemma length_sift_down [simp]: "length (sift_down cmp xs i) = length xs"
proof (induction cmp xs i rule: sift_down.induct)
  case (1 cmp xs i)
  show ?case
  proof (cases "2 * i + 1 < length xs \<and> cmp (xs ! i) (xs ! larger_child cmp xs i)")
    case True
    with 1 show ?thesis by (simp add: sift_down_step)
  next
    case False
    then show ?thesis by (simp add: sift_down_stop)
  qed
qed

lemma length_pq_pop [simp]: "length (pq_pop cmp p ps) = length ps"
  by (simp add: pq_pop_def)

lemma length_pq_push [simp]: "length (pq_push cmp xs x) = Suc (length xs)"
  by (simp add: pq_push_def)

subsection \<open>OrderBook\<close>

text \<open>
  \<^verbatim>\<open>orders_\<close> owns the Order objects, keyed by order id. The two priority queues hold bare
  pointers to objects owned by \<^verbatim>\<open>orders_\<close>; a pointer is modelled by the key under which
  its object is stored, so that a fill or a cancel through one path is seen through the
  other. \<open>deref\<close> follows a pointer in the map of the orders, and \<open>ptr_cmp\<close> is a
  comparator of orders applied to two pointers.
  \<^verbatim>\<open>add_order_unlocked\<close> is the only place that pushes a pointer and it stores the object
  in the same call, and nothing is ever erased from \<^verbatim>\<open>orders_\<close>, so every pointer in a
  queue of a book built by the operations below has its object (\<open>ptrs_valid\<close>, lemmas
  \<open>ptrs_valid_process_order\<close>, \<open>ptrs_valid_cancel_order\<close> and \<open>ptrs_valid_run\<close>).
  Storing a second order under an id that is already in the map would release the first
  object while a queue still points to it; the engine never does that, since it takes every
  id from its counter.

  The counter of the trade ids is written \<^verbatim>\<open>next_trade_id_\<close> in \<^verbatim>\<open>OrderBook.cpp\<close> and
  declared as \<^verbatim>\<open>net_trade_id{1}\<close> in \<^verbatim>\<open>OrderBook.h\<close>: one counter per book, starting
  at 1.
\<close>

record OrderBook =
  bsymbol :: string
  orders :: "u64 \<rightharpoonup> Order"
  bids :: "u64 list"
  asks :: "u64 list"
  next_trade_id :: u64

definition new_OrderBook :: "string \<Rightarrow> OrderBook" where
  "new_OrderBook symb =
     \<lparr>bsymbol = symb, orders = Map.empty, bids = [], asks = [], next_trade_id = 1\<rparr>"

definition deref :: "(u64 \<rightharpoonup> Order) \<Rightarrow> u64 \<Rightarrow> Order" where
  "deref m p = the (m p)"

definition ptr_cmp ::
  "(u64 \<rightharpoonup> Order) \<Rightarrow> (Order \<Rightarrow> Order \<Rightarrow> bool) \<Rightarrow> u64 \<Rightarrow> u64 \<Rightarrow> bool" where
  "ptr_cmp m cmp p q = cmp (deref m p) (deref m q)"

text \<open>\<^verbatim>\<open>add_order_unlocked\<close>: store the object under its id, push the pointer on its side.\<close>

definition add_order_unlocked :: "OrderBook \<Rightarrow> Order \<Rightarrow> OrderBook" where
  "add_order_unlocked b ord =
     (let b1 = b\<lparr>orders := (orders b)(order_id ord \<mapsto> ord)\<rparr>
      in if is_buy ord
         then b1\<lparr>bids := pq_push (ptr_cmp (orders b1) BuyOrderComparator) (bids b1) (order_id ord)\<rparr>
         else b1\<lparr>asks := pq_push (ptr_cmp (orders b1) SellOrderComparator) (asks b1) (order_id ord)\<rparr>)"

definition add_order :: "OrderBook \<Rightarrow> Order \<Rightarrow> OrderBook" where
  "add_order b ord = add_order_unlocked b ord"

text \<open>\<^verbatim>\<open>OrderBook::cancel_order\<close>: \<^verbatim>\<open>find\<close> in \<^verbatim>\<open>orders_\<close>, then \<^verbatim>\<open>Order::cancel\<close>.\<close>

definition cancel_order :: "OrderBook \<Rightarrow> u64 \<Rightarrow> bool \<times> OrderBook" where
  "cancel_order b oid =
     (case orders b oid of
        None \<Rightarrow> (False, b)
      | Some ord \<Rightarrow> (True, b\<lparr>orders := (orders b)(oid \<mapsto> cancel ord)\<rparr>))"

text \<open>The \<^verbatim>\<open>Trade\<close> built in the match loop.\<close>

definition make_trade :: "OrderBook \<Rightarrow> Order \<Rightarrow> Order \<Rightarrow> u64 \<Rightarrow> Trade" where
  "make_trade b incoming_order top_order trade_quantity =
     \<lparr>trade_id = next_trade_id b,
      taker_order_id = order_id incoming_order,
      maker_order_id = order_id top_order,
      taker_client_id = client_id incoming_order,
      maker_client_id = client_id top_order,
      t_symbol = bsymbol b,
      t_price = price top_order,
      t_quantity = trade_quantity\<rparr>"

text \<open>Facts the termination proofs of the loops need: a match either fills the top order
  or exhausts the incoming one (and a \<^verbatim>\<open>pop\<close> shortens the queue, \<open>length_pq_pop\<close>).\<close>

lemma fill_all_remaining: "remaining_quantity (fill ord (remaining_quantity ord)) = 0"
  by (simp add: fill_def remaining_quantity_def Let_def)

lemma fill_whole_is_filled: "is_filled (fill ord (remaining_quantity ord))"
  by (simp add: fill_def remaining_quantity_def Let_def is_filled_def)

lemma match_progress:
  "\<not> is_filled (fill top_order (min (remaining_quantity inc) (remaining_quantity top_order)))
   \<Longrightarrow> remaining_quantity
         (fill inc (min (remaining_quantity inc) (remaining_quantity top_order))) = 0"
  by (cases "remaining_quantity inc \<le> remaining_quantity top_order")
     (simp_all add: min_def fill_all_remaining fill_whole_is_filled)

text \<open>The buy branch of \<^verbatim>\<open>OrderBook::match_order\<close>: the \<^verbatim>\<open>while\<close> loop over \<^verbatim>\<open>asks_\<close>.
  The state of the loop is the book, the incoming order (not yet owned by the book) and
  the trades so far. \<^verbatim>\<open>asks_.top()\<close> is the front \<open>p\<close> of the queue.\<close>

function match_buy :: "OrderBook \<Rightarrow> Order \<Rightarrow> Trade list \<Rightarrow> Trade list \<times> OrderBook \<times> Order" where
  "match_buy b incoming_order trades =
     (case asks b of
        [] \<Rightarrow> (trades, b, incoming_order)
      | p # ps \<Rightarrow>
          if \<not> remaining_quantity incoming_order > 0 then (trades, b, incoming_order)
          else
            let top_order = deref (orders b) p
            in if status top_order = CANCELLED
               then match_buy (b\<lparr>asks := pq_pop (ptr_cmp (orders b) SellOrderComparator) p ps\<rparr>)
                      incoming_order trades
               else if dless (price incoming_order) (price top_order)
               then (trades, b, incoming_order)
               else
                 let trade_quantity =
                       min (remaining_quantity incoming_order) (remaining_quantity top_order);
                     trade = make_trade b incoming_order top_order trade_quantity;
                     b1 = b\<lparr>orders := (orders b)(p \<mapsto> fill top_order trade_quantity),
                            next_trade_id := next_trade_id b + 1\<rparr>
                 in match_buy
                      (if is_filled (fill top_order trade_quantity)
                       then b1\<lparr>asks := pq_pop (ptr_cmp (orders b1) SellOrderComparator) p ps\<rparr>
                       else b1)
                      (fill incoming_order trade_quantity)
                      (trades @ [trade]))"
  by pat_completeness auto

termination match_buy
proof (relation "measure (\<lambda>(b, inc, trades).
         2 * length (asks b) + (if remaining_quantity inc > 0 then 1 else 0))", goal_cases)
  case 1
  show ?case by simp
next
  case (2 b inc trades p ps top_order)
  then show ?case by simp
next
  case (3 b inc trades p ps top_order tq trade b1)
  show ?case
  proof (cases "is_filled (fill top_order tq)")
    case True
    with 3 show ?thesis by simp
  next
    case False
    with 3 match_progress [of top_order inc] have "remaining_quantity (fill inc tq) = 0"
      by simp
    with False 3 show ?thesis by (simp add: word_greater_zero_iff)
  qed
qed

text \<open>The sell branch: the same loop over \<^verbatim>\<open>bids_\<close>, with the price test reversed.\<close>

function match_sell :: "OrderBook \<Rightarrow> Order \<Rightarrow> Trade list \<Rightarrow> Trade list \<times> OrderBook \<times> Order" where
  "match_sell b incoming_order trades =
     (case bids b of
        [] \<Rightarrow> (trades, b, incoming_order)
      | p # ps \<Rightarrow>
          if \<not> remaining_quantity incoming_order > 0 then (trades, b, incoming_order)
          else
            let top_order = deref (orders b) p
            in if status top_order = CANCELLED
               then match_sell (b\<lparr>bids := pq_pop (ptr_cmp (orders b) BuyOrderComparator) p ps\<rparr>)
                      incoming_order trades
               else if dless (price top_order) (price incoming_order)
               then (trades, b, incoming_order)
               else
                 let trade_quantity =
                       min (remaining_quantity incoming_order) (remaining_quantity top_order);
                     trade = make_trade b incoming_order top_order trade_quantity;
                     b1 = b\<lparr>orders := (orders b)(p \<mapsto> fill top_order trade_quantity),
                            next_trade_id := next_trade_id b + 1\<rparr>
                 in match_sell
                      (if is_filled (fill top_order trade_quantity)
                       then b1\<lparr>bids := pq_pop (ptr_cmp (orders b1) BuyOrderComparator) p ps\<rparr>
                       else b1)
                      (fill incoming_order trade_quantity)
                      (trades @ [trade]))"
  by pat_completeness auto

termination match_sell
proof (relation "measure (\<lambda>(b, inc, trades).
         2 * length (bids b) + (if remaining_quantity inc > 0 then 1 else 0))", goal_cases)
  case 1
  show ?case by simp
next
  case (2 b inc trades p ps top_order)
  then show ?case by simp
next
  case (3 b inc trades p ps top_order tq trade b1)
  show ?case
  proof (cases "is_filled (fill top_order tq)")
    case True
    with 3 show ?thesis by simp
  next
    case False
    with 3 match_progress [of top_order inc] have "remaining_quantity (fill inc tq) = 0"
      by simp
    with False 3 show ?thesis by (simp add: word_greater_zero_iff)
  qed
qed

text \<open>\<^verbatim>\<open>OrderBook::match_order\<close>: the trades, the book afterwards, and the incoming
  order as the fills left it.\<close>

definition match_order :: "OrderBook \<Rightarrow> Order \<Rightarrow> Trade list \<times> OrderBook \<times> Order" where
  "match_order b incoming_order =
     (if is_buy incoming_order then match_buy b incoming_order []
      else match_sell b incoming_order [])"

text \<open>\<^verbatim>\<open>OrderBook::clean_filled_orders\<close>: two loops, the bid side and then the ask side.\<close>

function clean_bids :: "OrderBook \<Rightarrow> OrderBook" where
  "clean_bids b =
     (case bids b of
        [] \<Rightarrow> b
      | p # ps \<Rightarrow>
          if is_filled (deref (orders b) p) \<or> status (deref (orders b) p) = CANCELLED
          then clean_bids (b\<lparr>bids := pq_pop (ptr_cmp (orders b) BuyOrderComparator) p ps\<rparr>)
          else b)"
  by pat_completeness auto

termination clean_bids
  by (relation "measure (\<lambda>b. length (bids b))") simp_all

function clean_asks :: "OrderBook \<Rightarrow> OrderBook" where
  "clean_asks b =
     (case asks b of
        [] \<Rightarrow> b
      | p # ps \<Rightarrow>
          if is_filled (deref (orders b) p) \<or> status (deref (orders b) p) = CANCELLED
          then clean_asks (b\<lparr>asks := pq_pop (ptr_cmp (orders b) SellOrderComparator) p ps\<rparr>)
          else b)"
  by pat_completeness auto

termination clean_asks
  by (relation "measure (\<lambda>b. length (asks b))") simp_all

definition clean_filled_orders :: "OrderBook \<Rightarrow> OrderBook" where
  "clean_filled_orders b = clean_asks (clean_bids b)"

text \<open>\<^verbatim>\<open>OrderBook::process_order\<close>. The source returns the trades; the model also returns
  the book afterwards. The call takes the order by value as a \<^verbatim>\<open>unique_ptr\<close>: the object
  is moved into \<^verbatim>\<open>orders_\<close> when the test of line 49 holds, and is released at the end of
  the call otherwise. The third component of the result says which: \<open>True\<close> when the
  object lives on in the book.\<close>

definition process_order :: "OrderBook \<Rightarrow> Order \<Rightarrow> Trade list \<times> OrderBook \<times> bool" where
  "process_order b ord =
     (case match_order b ord of
        (trades, b1, ord1) \<Rightarrow>
          let stored = (\<not> is_filled ord1 \<and> status ord1 \<noteq> CANCELLED);
              b2 = (if stored then add_order_unlocked b1 ord1 else b1)
          in (trades, clean_filled_orders b2, stored))"

text \<open>\<^verbatim>\<open>get_best_bid\<close> and \<^verbatim>\<open>get_best_ask\<close>: a copy of the queue is popped until an order
  that is neither cancelled nor filled is on top; \<open>0.0\<close> when the copy runs empty.\<close>

function best_bid_loop :: "(u64 \<rightharpoonup> Order) \<Rightarrow> u64 list \<Rightarrow> double" where
  "best_bid_loop m temp_bids =
     (case temp_bids of
        [] \<Rightarrow> Fin 0
      | p # ps \<Rightarrow>
          if status (deref m p) \<noteq> CANCELLED \<and> \<not> is_filled (deref m p)
          then price (deref m p)
          else best_bid_loop m (pq_pop (ptr_cmp m BuyOrderComparator) p ps))"
  by pat_completeness auto

termination best_bid_loop
  by (relation "measure (\<lambda>(m, temp_bids). length temp_bids)") simp_all

function best_ask_loop :: "(u64 \<rightharpoonup> Order) \<Rightarrow> u64 list \<Rightarrow> double" where
  "best_ask_loop m temp_asks =
     (case temp_asks of
        [] \<Rightarrow> Fin 0
      | p # ps \<Rightarrow>
          if status (deref m p) \<noteq> CANCELLED \<and> \<not> is_filled (deref m p)
          then price (deref m p)
          else best_ask_loop m (pq_pop (ptr_cmp m SellOrderComparator) p ps))"
  by pat_completeness auto

termination best_ask_loop
  by (relation "measure (\<lambda>(m, temp_asks). length temp_asks)") simp_all

definition get_best_bid :: "OrderBook \<Rightarrow> double" where
  "get_best_bid b = best_bid_loop (orders b) (bids b)"

definition get_best_ask :: "OrderBook \<Rightarrow> double" where
  "get_best_ask b = best_ask_loop (orders b) (asks b)"

text \<open>\<^verbatim>\<open>get_spread\<close>. The subtraction \<^verbatim>\<open>best_ask - best_bid\<close> is the one arithmetic
  operation on prices; on doubles it rounds. It is the parameter \<open>fsub\<close>, of which
  nothing is assumed.\<close>

definition get_spread :: "(double \<Rightarrow> double \<Rightarrow> double) \<Rightarrow> OrderBook \<Rightarrow> double" where
  "get_spread fsub b =
     (let best_bid = get_best_bid b; best_ask = get_best_ask b
      in if dequal best_bid (Fin 0) \<or> dequal best_ask (Fin 0) then Fin 0
         else fsub best_ask best_bid)"

text \<open>\<^verbatim>\<open>aggregate_levels_impl\<close>. \<^verbatim>\<open>level_map\<close> is a \<^verbatim>\<open>std::map<double, BookLevel>\<close> with
  the default ordering \<^verbatim>\<open>std::less<double>\<close>: an association list kept in ascending order
  of the key. \<open>level_add\<close> is \<^verbatim>\<open>level_map[price]\<close>, which finds the first key that is
  not less than the price, takes its entry if the price is not less than that key, and
  otherwise inserts a zeroed \<^verbatim>\<open>BookLevel\<close> in front of it, followed by the three
  assignments of the loop body. The result vector is the map read in key order.
  \<^verbatim>\<open>max_levels\<close> is a \<^verbatim>\<open>size_t\<close> that is only compared with the size of the map.\<close>

record BookLevel =
  l_price :: double
  l_quantity :: u64
  order_count :: u32

fun level_add :: "double \<Rightarrow> u64 \<Rightarrow> (double \<times> BookLevel) list \<Rightarrow> (double \<times> BookLevel) list" where
  "level_add p q [] = [(p, \<lparr>l_price = p, l_quantity = 0 + q, order_count = 0 + 1\<rparr>)]"
| "level_add p q ((k, level) # m) =
     (if dless k p then (k, level) # level_add p q m
      else if dless p k
      then (p, \<lparr>l_price = p, l_quantity = 0 + q, order_count = 0 + 1\<rparr>) # (k, level) # m
      else (k, level\<lparr>l_price := p, l_quantity := l_quantity level + q,
                    order_count := order_count level + 1\<rparr>) # m)"

function aggregate_levels_loop ::
  "(u64 \<rightharpoonup> Order) \<Rightarrow> (Order \<Rightarrow> Order \<Rightarrow> bool) \<Rightarrow> u64 list \<Rightarrow> nat \<Rightarrow> (double \<times> BookLevel) list
     \<Rightarrow> (double \<times> BookLevel) list" where
  "aggregate_levels_loop m cmp container max_levels level_map =
     (case container of
        [] \<Rightarrow> level_map
      | p # ps \<Rightarrow>
          if \<not> length level_map < max_levels then level_map
          else if status (deref m p) = CANCELLED \<or> is_filled (deref m p)
          then aggregate_levels_loop m cmp (pq_pop (ptr_cmp m cmp) p ps) max_levels level_map
          else aggregate_levels_loop m cmp (pq_pop (ptr_cmp m cmp) p ps) max_levels
                 (level_add (price (deref m p)) (remaining_quantity (deref m p)) level_map))"
  by pat_completeness auto

termination aggregate_levels_loop
  by (relation "measure (\<lambda>(m, cmp, container, max_levels, level_map). length container)")
     simp_all

definition aggregate_levels_impl ::
  "(u64 \<rightharpoonup> Order) \<Rightarrow> (Order \<Rightarrow> Order \<Rightarrow> bool) \<Rightarrow> u64 list \<Rightarrow> nat \<Rightarrow> BookLevel list" where
  "aggregate_levels_impl m cmp container max_levels =
     map snd (aggregate_levels_loop m cmp container max_levels [])"

definition get_bid_levels :: "OrderBook \<Rightarrow> nat \<Rightarrow> BookLevel list" where
  "get_bid_levels b max_levels = aggregate_levels_impl (orders b) BuyOrderComparator (bids b) max_levels"

definition get_ask_levels :: "OrderBook \<Rightarrow> nat \<Rightarrow> BookLevel list" where
  "get_ask_levels b max_levels = aggregate_levels_impl (orders b) SellOrderComparator (asks b) max_levels"

text \<open>Modelled from the spec: \<^verbatim>\<open>OrderBook::get_order\<close> is called by
  \<^verbatim>\<open>MatchingEngine::update_stats_for_trade\<close> and tested against null there, but the book
  neither declares nor defines it. The spec (4.3, step 8) has the engine ask whether
  ``the maker for that trade is now FILLED'', so it is the lookup of the id in the
  book's own map of orders, null when the id is absent.\<close>

definition get_order :: "OrderBook \<Rightarrow> u64 \<Rightarrow> Order option" where
  "get_order b oid = orders b oid"

subsection \<open>MatchingEngine\<close>

record EngineStats =
  total_orders :: u64
  active_orders :: u64
  total_trades :: u64
  cancelled_orders :: u64
  rejected_orders :: u64

record MatchingEngine =
  order_books :: "string \<rightharpoonup> OrderBook"
  order_to_symbol :: "u64 \<rightharpoonup> string"
  next_order_id :: u64
  stats :: EngineStats

definition new_MatchingEngine :: MatchingEngine where
  "new_MatchingEngine =
     \<lparr>order_books = Map.empty, order_to_symbol = Map.empty, next_order_id = 1,
      stats = \<lparr>total_orders = 0, active_orders = 0, total_trades = 0,
               cancelled_orders = 0, rejected_orders = 0\<rparr>\<rparr>"

text \<open>\<^verbatim>\<open>get_or_create_book\<close>: the book of the symbol, created empty when there is none.\<close>

definition get_or_create_book :: "MatchingEngine \<Rightarrow> string \<Rightarrow> OrderBook \<times> MatchingEngine" where
  "get_or_create_book e symb =
     (case order_books e symb of
        Some book \<Rightarrow> (book, e)
      | None \<Rightarrow> (new_OrderBook symb,
                 e\<lparr>order_books := (order_books e)(symb \<mapsto> new_OrderBook symb)\<rparr>))"

text \<open>\<^verbatim>\<open>update_stats_for_trade\<close>, on the statistics, with the book as it is after
  \<^verbatim>\<open>process_order\<close>.\<close>

definition update_stats_for_trade :: "EngineStats \<Rightarrow> Trade \<Rightarrow> OrderBook \<Rightarrow> EngineStats" where
  "update_stats_for_trade st trade book =
     (let st1 = st\<lparr>total_trades := total_trades st + 1\<rparr>
      in case get_order book (maker_order_id trade) of
           Some maker_order \<Rightarrow>
             if is_filled maker_order then st1\<lparr>active_orders := active_orders st1 - 1\<rparr>
             else st1
         | None \<Rightarrow> st1)"

text \<open>\<^verbatim>\<open>MatchingEngine::submit_order\<close>. The result is the order id, the trades in the
  order in which \<^verbatim>\<open>notify_trade\<close> hands them to the callback, and the engine afterwards.

  The source keeps the raw pointer \<^verbatim>\<open>order_ptr\<close>, moves the \<^verbatim>\<open>unique_ptr\<close> into
  \<^verbatim>\<open>process_order\<close>, and afterwards tests \<^verbatim>\<open>order_ptr->is_filled()\<close> (line 37). When
  \<^verbatim>\<open>process_order\<close> has stored the order, the pointer is the one that the book holds and
  the test reads the stored object. When it has not (the order came out filled, which
  includes every order of quantity 0, or cancelled), the object has been released before
  the test: the test reads freed memory, and C++ leaves its value undefined. The last
  argument \<open>stale\<close> is the value that this read yields; it is used in that case only.
  A build that finds the bytes of the released object untouched reads \<open>True\<close> for an
  order that came out filled.\<close>

definition submit_order ::
  "MatchingEngine \<Rightarrow> u64 \<Rightarrow> string \<Rightarrow> Side \<Rightarrow> double \<Rightarrow> u64 \<Rightarrow> bool
     \<Rightarrow> u64 \<times> Trade list \<times> MatchingEngine" where
  "submit_order e client symb s p q stale =
     (let oid = next_order_id e;
          e1 = e\<lparr>next_order_id := next_order_id e + 1\<rparr>;
          ord = new_Order oid client symb s p q;
          e2 = e1\<lparr>stats := (stats e1)\<lparr>total_orders := total_orders (stats e1) + 1,
                                     active_orders := active_orders (stats e1) + 1\<rparr>\<rparr>;
          e3 = e2\<lparr>order_to_symbol := (order_to_symbol e2)(oid \<mapsto> symb)\<rparr>
      in case get_or_create_book e3 symb of
           (book, e4) \<Rightarrow>
             (case process_order book ord of
                (trades, book1, stored) \<Rightarrow>
                  let e5 = e4\<lparr>order_books := (order_books e4)(symb \<mapsto> book1)\<rparr>;
                      taker_filled = (if stored then is_filled (deref (orders book1) oid)
                                      else stale);
                      st1 = (if taker_filled
                             then (stats e5)\<lparr>active_orders := active_orders (stats e5) - 1\<rparr>
                             else stats e5);
                      st2 = foldl (\<lambda>st trade. update_stats_for_trade st trade book1) st1 trades
                  in (oid, trades, e5\<lparr>stats := st2\<rparr>)))"

text \<open>\<^verbatim>\<open>MatchingEngine::cancel_order\<close>.\<close>

definition engine_cancel_order :: "MatchingEngine \<Rightarrow> u64 \<Rightarrow> bool \<times> MatchingEngine" where
  "engine_cancel_order e oid =
     (case order_to_symbol e oid of
        None \<Rightarrow> (False, e)
      | Some symb \<Rightarrow>
          (case order_books e symb of
             None \<Rightarrow> (False, e)
           | Some book \<Rightarrow>
               (case cancel_order book oid of
                  (success, book1) \<Rightarrow>
                    let e1 = e\<lparr>order_books := (order_books e)(symb \<mapsto> book1)\<rparr>
                    in if success
                       then (True, e1\<lparr>stats := (stats e1)
                                \<lparr>cancelled_orders := cancelled_orders (stats e1) + 1,
                                 active_orders := active_orders (stats e1) - 1\<rparr>\<rparr>)
                       else (False, e1))))"

text \<open>The market-data queries of the engine: \<^verbatim>\<open>find\<close> the book, ask it, or return the
  default. They are \<^verbatim>\<open>const\<close> and use \<^verbatim>\<open>find\<close>, never \<^verbatim>\<open>operator[]\<close>, so they are
  functions of the engine state.\<close>

definition engine_get_best_bid :: "MatchingEngine \<Rightarrow> string \<Rightarrow> double" where
  "engine_get_best_bid e symb =
     (case order_books e symb of Some book \<Rightarrow> get_best_bid book | None \<Rightarrow> Fin 0)"

definition engine_get_best_ask :: "MatchingEngine \<Rightarrow> string \<Rightarrow> double" where
  "engine_get_best_ask e symb =
     (case order_books e symb of Some book \<Rightarrow> get_best_ask book | None \<Rightarrow> Fin 0)"

definition engine_get_spread ::
  "(double \<Rightarrow> double \<Rightarrow> double) \<Rightarrow> MatchingEngine \<Rightarrow> string \<Rightarrow> double" where
  "engine_get_spread fsub e symb =
     (case order_books e symb of Some book \<Rightarrow> get_spread fsub book | None \<Rightarrow> Fin 0)"

definition engine_get_bid_levels :: "MatchingEngine \<Rightarrow> string \<Rightarrow> nat \<Rightarrow> BookLevel list" where
  "engine_get_bid_levels e symb max_levels =
     (case order_books e symb of Some book \<Rightarrow> get_bid_levels book max_levels | None \<Rightarrow> [])"

definition engine_get_ask_levels :: "MatchingEngine \<Rightarrow> string \<Rightarrow> nat \<Rightarrow> BookLevel list" where
  "engine_get_ask_levels e symb max_levels =
     (case order_books e symb of Some book \<Rightarrow> get_ask_levels book max_levels | None \<Rightarrow> [])"

text \<open>\<^verbatim>\<open>get_all_symbols\<close> lists the keys of an \<^verbatim>\<open>unordered_map\<close>, in no fixed order: the
  set of the keys.\<close>

definition get_all_symbols :: "MatchingEngine \<Rightarrow> string set" where
  "get_all_symbols e = dom (order_books e)"

definition get_stats :: "MatchingEngine \<Rightarrow> EngineStats" where
  "get_stats e = stats e"

subsection \<open>Sequences of requests\<close>

text \<open>A caller's request is a submit or a cancel; a submit carries, next to the arguments of
  the call, the value \<open>stale\<close> that the read of line 37 yields in that call when it reads
  a released object. \<open>run\<close> applies a sequence of requests to the engine as constructed.
  \<open>submits_symbol symb r\<close> holds when \<open>r\<close> submits an order for \<open>symb\<close>.\<close>

datatype Request = Submit u64 string Side double u64 bool | Cancel u64

fun apply_request :: "MatchingEngine \<Rightarrow> Request \<Rightarrow> MatchingEngine" where
  "apply_request e (Submit client symb s p q stale) =
     snd (snd (submit_order e client symb s p q stale))"
| "apply_request e (Cancel oid) = snd (engine_cancel_order e oid)"

definition run :: "Request list \<Rightarrow> MatchingEngine" where
  "run reqs = foldl apply_request new_MatchingEngine reqs"

fun submits_symbol :: "string \<Rightarrow> Request \<Rightarrow> bool" where
  "submits_symbol symb (Submit client symb' s p q stale) = (symb' = symb)"
| "submits_symbol symb (Cancel oid) = False"

section \<open>The match loop, one iteration at a time\<close>

text \<open>
  The two branches of \<^verbatim>\<open>match_order\<close> are the same loop on the two sides. To reason
  about both at once, \<open>match_iteration s\<close> is the body of the loop for an incoming order
  of side \<open>s\<close>: it leaves the loop (\<open>Exit\<close>: the queue is empty, the incoming order is
  exhausted, or the prices do not cross), pops a cancelled top order (\<open>Skip\<close>), or
  matches the top order (\<open>Match\<close>, with the trade). \<open>match_side_unfold\<close> shows that
  \<open>match_buy\<close> and \<open>match_sell\<close> are the iteration of this body, and
  \<open>match_side_induct\<close> is the induction along the iterations.
\<close>

declare match_buy.simps [simp del] match_sell.simps [simp del] clean_bids.simps [simp del]
  clean_asks.simps [simp del] best_bid_loop.simps [simp del] best_ask_loop.simps [simp del]
  aggregate_levels_loop.simps [simp del]

text \<open>The definitions a concrete run unfolds; the equations of the loops are given to the
  simplifier only where a run is evaluated.\<close>

lemmas order_defs =
  new_Order_def is_buy_def is_filled_def remaining_quantity_def fill_def cancel_def
  BuyOrderComparator_def SellOrderComparator_def

lemmas heap_defs =
  pq_push_def pq_pop_def sift_up.simps sift_down.simps parent_def larger_child_def

lemmas book_defs =
  new_OrderBook_def deref_def ptr_cmp_def add_order_unlocked_def
  add_order_def cancel_order_def make_trade_def match_order_def clean_filled_orders_def
  process_order_def get_best_bid_def get_best_ask_def get_order_def get_bid_levels_def
  get_ask_levels_def aggregate_levels_impl_def

lemmas loop_simps =
  match_buy.simps match_sell.simps clean_bids.simps clean_asks.simps best_bid_loop.simps
  best_ask_loop.simps aggregate_levels_loop.simps

lemmas engine_defs =
  new_MatchingEngine_def get_or_create_book_def update_stats_for_trade_def submit_order_def
  engine_cancel_order_def engine_get_best_bid_def engine_get_best_ask_def get_stats_def

datatype iteration = Exit | Skip OrderBook | Match OrderBook Order Trade

text \<open>\<open>resting_queue s b\<close> is the queue that an incoming order of side \<open>s\<close> is matched
  against, \<open>resting_cmp s\<close> its comparator, and \<open>pop_resting s p ps b\<close> the book after a
  \<^verbatim>\<open>pop\<close> of that queue, which is \<open>p # ps\<close>.\<close>

definition resting_queue :: "Side \<Rightarrow> OrderBook \<Rightarrow> u64 list" where
  "resting_queue s b = (case s of BUY \<Rightarrow> asks b | SELL \<Rightarrow> bids b)"

definition resting_cmp :: "Side \<Rightarrow> Order \<Rightarrow> Order \<Rightarrow> bool" where
  "resting_cmp s = (case s of BUY \<Rightarrow> SellOrderComparator | SELL \<Rightarrow> BuyOrderComparator)"

definition pop_resting :: "Side \<Rightarrow> u64 \<Rightarrow> u64 list \<Rightarrow> OrderBook \<Rightarrow> OrderBook" where
  "pop_resting s p ps b =
     (case s of
        BUY \<Rightarrow> b\<lparr>asks := pq_pop (ptr_cmp (orders b) SellOrderComparator) p ps\<rparr>
      | SELL \<Rightarrow> b\<lparr>bids := pq_pop (ptr_cmp (orders b) BuyOrderComparator) p ps\<rparr>)"

definition no_cross :: "Side \<Rightarrow> Order \<Rightarrow> Order \<Rightarrow> bool" where
  "no_cross s inc top_order =
     (case s of BUY \<Rightarrow> dless (price inc) (price top_order)
              | SELL \<Rightarrow> dless (price top_order) (price inc))"

definition match_iteration :: "Side \<Rightarrow> OrderBook \<Rightarrow> Order \<Rightarrow> iteration" where
  "match_iteration s b inc =
     (case resting_queue s b of
        [] \<Rightarrow> Exit
      | p # ps \<Rightarrow>
          if \<not> remaining_quantity inc > 0 then Exit
          else
            let top_order = deref (orders b) p
            in if status top_order = CANCELLED then Skip (pop_resting s p ps b)
               else if no_cross s inc top_order then Exit
               else
                 let q = min (remaining_quantity inc) (remaining_quantity top_order);
                     b1 = b\<lparr>orders := (orders b)(p \<mapsto> fill top_order q),
                            next_trade_id := next_trade_id b + 1\<rparr>
                 in Match (if is_filled (fill top_order q) then pop_resting s p ps b1 else b1)
                      (fill inc q) (make_trade b inc top_order q))"

definition match_side ::
  "Side \<Rightarrow> OrderBook \<Rightarrow> Order \<Rightarrow> Trade list \<Rightarrow> Trade list \<times> OrderBook \<times> Order" where
  "match_side s b inc ts = (case s of BUY \<Rightarrow> match_buy b inc ts | SELL \<Rightarrow> match_sell b inc ts)"

lemma match_side_unfold:
  "match_side s b inc ts =
     (case match_iteration s b inc of
        Exit \<Rightarrow> (ts, b, inc)
      | Skip b' \<Rightarrow> match_side s b' inc ts
      | Match b' inc' t \<Rightarrow> match_side s b' inc' (ts @ [t]))"
proof (cases s)
  case BUY
  show ?thesis
    unfolding BUY match_side_def
    by (subst match_buy.simps)
       (simp add: match_iteration_def resting_queue_def pop_resting_def
          no_cross_def Let_def split: list.splits)
next
  case SELL
  show ?thesis
    unfolding SELL match_side_def
    by (subst match_sell.simps)
       (simp add: match_iteration_def resting_queue_def pop_resting_def
          no_cross_def Let_def split: list.splits)
qed

lemma match_order_side: "match_order b inc = match_side (side inc) b inc []"
  by (cases "side inc") (simp_all add: match_order_def match_side_def is_buy_def)

lemma match_iteration_Skip:
  assumes "match_iteration s b inc = Skip b'"
  obtains p ps where "resting_queue s b = p # ps" "0 < remaining_quantity inc"
    "status (deref (orders b) p) = CANCELLED"
    "b' = pop_resting s p ps b"
  using assms
  by (cases "resting_queue s b")
     (simp_all add: match_iteration_def Let_def split: if_splits)

lemma match_iteration_Match:
  assumes "match_iteration s b inc = Match b' inc' t"
  obtains p ps top_order q b1 where "resting_queue s b = p # ps"
    "0 < remaining_quantity inc"
    "top_order = deref (orders b) p"
    "status top_order \<noteq> CANCELLED" "\<not> no_cross s inc top_order"
    "q = min (remaining_quantity inc) (remaining_quantity top_order)"
    "b1 = b\<lparr>orders := (orders b)(p \<mapsto> fill top_order q),
             next_trade_id := next_trade_id b + 1\<rparr>"
    "b' = (if is_filled (fill top_order q) then pop_resting s p ps b1 else b1)"
    "inc' = fill inc q" "t = make_trade b inc top_order q"
  using assms
  by (cases "resting_queue s b")
     (simp_all add: match_iteration_def Let_def split: if_splits)

lemma match_side_Exit: "match_iteration s b inc = Exit \<Longrightarrow> match_side s b inc ts = (ts, b, inc)"
  by (subst match_side_unfold) simp

lemma match_side_Skip:
  "match_iteration s b inc = Skip b' \<Longrightarrow> match_side s b inc ts = match_side s b' inc ts"
  by (subst match_side_unfold) simp

lemma match_side_Match:
  "match_iteration s b inc = Match b' inc' t \<Longrightarrow>
   match_side s b inc ts = match_side s b' inc' (ts @ [t])"
  by (subst match_side_unfold) simp

text \<open>The induction along the iterations. The measure is that of the termination proofs: a
  pop shortens the queue, and a match that does not pop exhausts the incoming order.\<close>

definition match_measure :: "Side \<Rightarrow> OrderBook \<Rightarrow> Order \<Rightarrow> nat" where
  "match_measure s b inc =
     2 * length (resting_queue s b) + (if remaining_quantity inc > 0 then 1 else 0)"

lemma resting_queue_pop_resting:
  "resting_queue s (pop_resting s p ps b) = pq_pop (ptr_cmp (orders b) (resting_cmp s)) p ps"
  by (cases s) (simp_all add: resting_queue_def pop_resting_def resting_cmp_def)

lemma match_measure_Skip:
  assumes "match_iteration s b inc = Skip b'"
  shows "match_measure s b' inc < match_measure s b inc"
proof -
  from assms obtain p ps where "resting_queue s b = p # ps" "b' = pop_resting s p ps b"
    by (rule match_iteration_Skip)
  then show ?thesis
    by (simp add: match_measure_def resting_queue_pop_resting)
qed

lemma match_measure_Match:
  assumes "match_iteration s b inc = Match b' inc' t"
  shows "match_measure s b' inc' < match_measure s b inc"
proof -
  from assms obtain p ps top_order q b1 where m: "resting_queue s b = p # ps"
    "0 < remaining_quantity inc"
    "top_order = deref (orders b) p"
    "status top_order \<noteq> CANCELLED" "\<not> no_cross s inc top_order"
    "q = min (remaining_quantity inc) (remaining_quantity top_order)"
    "b1 = b\<lparr>orders := (orders b)(p \<mapsto> fill top_order q),
             next_trade_id := next_trade_id b + 1\<rparr>"
    "b' = (if is_filled (fill top_order q) then pop_resting s p ps b1 else b1)"
    "inc' = fill inc q" "t = make_trade b inc top_order q"
    by (rule match_iteration_Match)
  have q1: "resting_queue s b1 = p # ps"
    using m(1) by (cases s) (simp_all add: m(7) resting_queue_def)
  show ?thesis
  proof (cases "is_filled (fill top_order q)")
    case True
    with m(1,8) show ?thesis
      by (simp add: match_measure_def resting_queue_pop_resting)
  next
    case False
    with match_progress [of top_order inc] have "remaining_quantity inc' = 0"
      by (simp add: m(6,9))
    with False m(2) q1 m(1) show ?thesis
      by (simp add: match_measure_def m(8))
  qed
qed

lemma match_side_induct [case_names Exit Skip Match]:
  assumes exit: "\<And>b inc ts. match_iteration s b inc = Exit \<Longrightarrow> P b inc ts"
    and skip: "\<And>b inc ts b'. match_iteration s b inc = Skip b' \<Longrightarrow> P b' inc ts \<Longrightarrow> P b inc ts"
    and match: "\<And>b inc ts b' inc' t.
      match_iteration s b inc = Match b' inc' t \<Longrightarrow> P b' inc' (ts @ [t]) \<Longrightarrow> P b inc ts"
  shows "P b inc ts"
proof (induction "match_measure s b inc" arbitrary: b inc ts rule: less_induct)
  case (less b inc ts)
  show ?case
  proof (cases "match_iteration s b inc")
    case Exit
    then show ?thesis by (rule exit)
  next
    case (Skip b')
    from less [OF match_measure_Skip [OF Skip]] have "P b' inc ts" .
    with Skip show ?thesis by (rule skip)
  next
    case (Match b' inc' t)
    from less [OF match_measure_Match [OF Match]] have "P b' inc' (ts @ [t])" .
    with Match show ?thesis by (rule match)
  qed
qed

text \<open>The states of the loop: \<open>match_reaches s b inc b1 inc1\<close> holds when the loop for
  the incoming order \<open>inc\<close> of side \<open>s\<close>, started on the book \<open>b\<close>, stands at the book
  \<open>b1\<close> with the incoming order filled to \<open>inc1\<close> before one of its iterations.
  \<open>resting_top_order s b\<close> is the order on top of the queue that an incoming order of side
  \<open>s\<close> is matched against.\<close>

inductive match_reaches :: "Side \<Rightarrow> OrderBook \<Rightarrow> Order \<Rightarrow> OrderBook \<Rightarrow> Order \<Rightarrow> bool"
  for s :: Side and b :: OrderBook and inc :: Order where
  start: "match_reaches s b inc b inc"
| skip: "match_reaches s b inc b1 inc1 \<Longrightarrow> match_iteration s b1 inc1 = Skip b2 \<Longrightarrow>
         match_reaches s b inc b2 inc1"
| matched: "match_reaches s b inc b1 inc1 \<Longrightarrow> match_iteration s b1 inc1 = Match b2 inc2 t \<Longrightarrow>
         match_reaches s b inc b2 inc2"

definition resting_top_order :: "Side \<Rightarrow> OrderBook \<Rightarrow> Order option" where
  "resting_top_order s b =
     (case resting_queue s b of
        [] \<Rightarrow> None
      | p # ps \<Rightarrow> Some (deref (orders b) p))"

text \<open>What the loops leave alone: the immutable fields of an order, the map of the orders
  under a pop, and an order that is \<open>terminal\<close>: cancelled, or FILLED with nothing
  remaining.\<close>

lemma fill_fields [simp]:
  "order_id (fill ord n) = order_id ord" "client_id (fill ord n) = client_id ord"
  "symbol (fill ord n) = symbol ord" "side (fill ord n) = side ord"
  "price (fill ord n) = price ord" "quantity (fill ord n) = quantity ord"
  by (simp_all add: fill_def Let_def)

lemma orders_pop_resting [simp]: "orders (pop_resting s p ps b) = orders b"
  by (cases s) (simp_all add: pop_resting_def)

definition terminal :: "Order \<Rightarrow> bool" where
  "terminal ord \<longleftrightarrow>
     status ord = CANCELLED \<or> (status ord = FILLED \<and> filled_quantity ord = quantity ord)"

lemma fill_complete:
  assumes full: "filled_quantity ord = quantity ord"
  shows "fill ord n = ord\<lparr>status := FILLED\<rparr>"
proof -
  have "(if n > remaining_quantity ord then remaining_quantity ord else n) = 0"
    using full by (simp add: remaining_quantity_def word_greater_zero_iff)
  then show ?thesis
    using full by (simp add: fill_def is_filled_def Let_def)
qed

lemma match_side_keeps_terminal:
  "orders b oid = Some ord \<Longrightarrow> terminal ord \<Longrightarrow>
   orders (fst (snd (match_side s b inc ts))) oid = Some ord"
proof (induction b inc ts rule: match_side_induct [where s = s])
  case (Exit b inc ts)
  then show ?case by (simp add: match_side_Exit)
next
  case (Skip b inc ts b')
  from Skip.hyps have "orders b' = orders b"
    by (auto elim!: match_iteration_Skip)
  with Skip show ?case by (simp add: match_side_Skip)
next
  case (Match b inc ts b' inc' t)
  from Match.hyps obtain top_ptr top_order q where
    top: "top_order = deref (orders b) top_ptr" "status top_order \<noteq> CANCELLED"
    and b': "orders b' = (orders b)(top_ptr \<mapsto> fill top_order q)"
    by (auto elim!: match_iteration_Match split: if_splits)
  have "orders b' oid = Some ord"
  proof (cases "top_ptr = oid")
    case False
    with b' Match.prems show ?thesis by simp
  next
    case True
    with top Match.prems have "top_order = ord" "status ord = FILLED"
      "filled_quantity ord = quantity ord"
      by (auto simp: deref_def terminal_def)
    with b' True fill_complete [of ord q] show ?thesis by simp
  qed
  with Match show ?case by (simp add: match_side_Match)
qed

lemma match_side_incoming:
  "order_id (snd (snd (match_side s b inc ts))) = order_id inc \<and>
   side (snd (snd (match_side s b inc ts))) = side inc \<and>
   price (snd (snd (match_side s b inc ts))) = price inc \<and>
   quantity (snd (snd (match_side s b inc ts))) = quantity inc"
proof (induction b inc ts rule: match_side_induct [where s = s])
  case (Exit b inc ts)
  then show ?case by (simp add: match_side_Exit)
next
  case (Skip b inc ts b')
  then show ?case by (simp add: match_side_Skip)
next
  case (Match b inc ts b' inc' t)
  from Match.hyps obtain q where "inc' = fill inc q"
    by (auto elim!: match_iteration_Match)
  with Match show ?case by (simp add: match_side_Match)
qed

lemma clean_bids_stop:
  "bids b = [] \<or> (\<exists>p ps. bids b = p # ps \<and>
     \<not> (is_filled (deref (orders b) p) \<or> status (deref (orders b) p) = CANCELLED)) \<Longrightarrow>
   clean_bids b = b"
  by (subst clean_bids.simps) (auto split: list.splits)

lemma clean_bids_step:
  "bids b = p # ps \<Longrightarrow>
   is_filled (deref (orders b) p) \<or> status (deref (orders b) p) = CANCELLED \<Longrightarrow>
   clean_bids b = clean_bids (b\<lparr>bids := pq_pop (ptr_cmp (orders b) BuyOrderComparator) p ps\<rparr>)"
  by (subst clean_bids.simps) simp

lemma clean_asks_stop:
  "asks b = [] \<or> (\<exists>p ps. asks b = p # ps \<and>
     \<not> (is_filled (deref (orders b) p) \<or> status (deref (orders b) p) = CANCELLED)) \<Longrightarrow>
   clean_asks b = b"
  by (subst clean_asks.simps) (auto split: list.splits)

lemma clean_asks_step:
  "asks b = p # ps \<Longrightarrow>
   is_filled (deref (orders b) p) \<or> status (deref (orders b) p) = CANCELLED \<Longrightarrow>
   clean_asks b = clean_asks (b\<lparr>asks := pq_pop (ptr_cmp (orders b) SellOrderComparator) p ps\<rparr>)"
  by (subst clean_asks.simps) simp

text \<open>The two cleaning loops, by induction: a property \<open>P\<close> of books that a pop of a dead
  top order keeps is kept by the loop.\<close>

lemma clean_bids_induct [case_names stop step]:
  assumes stop: "\<And>b. clean_bids b = b \<Longrightarrow> P b"
    and step: "\<And>b p ps. bids b = p # ps \<Longrightarrow>
      is_filled (deref (orders b) p) \<or> status (deref (orders b) p) = CANCELLED \<Longrightarrow>
      P (b\<lparr>bids := pq_pop (ptr_cmp (orders b) BuyOrderComparator) p ps\<rparr>) \<Longrightarrow> P b"
  shows "P b"
proof (induction b rule: clean_bids.induct)
  case (1 b)
  show ?case
  proof (cases "bids b")
    case Nil
    then show ?thesis by (intro stop clean_bids_stop) simp
  next
    case (Cons p ps)
    show ?thesis
    proof (cases "is_filled (deref (orders b) p) \<or> status (deref (orders b) p) = CANCELLED")
      case True
      from Cons True 1 [OF Cons True] show ?thesis by (rule step)
    next
      case False
      with Cons show ?thesis by (intro stop clean_bids_stop) simp
    qed
  qed
qed

lemma clean_asks_induct [case_names stop step]:
  assumes stop: "\<And>b. clean_asks b = b \<Longrightarrow> P b"
    and step: "\<And>b p ps. asks b = p # ps \<Longrightarrow>
      is_filled (deref (orders b) p) \<or> status (deref (orders b) p) = CANCELLED \<Longrightarrow>
      P (b\<lparr>asks := pq_pop (ptr_cmp (orders b) SellOrderComparator) p ps\<rparr>) \<Longrightarrow> P b"
  shows "P b"
proof (induction b rule: clean_asks.induct)
  case (1 b)
  show ?case
  proof (cases "asks b")
    case Nil
    then show ?thesis by (intro stop clean_asks_stop) simp
  next
    case (Cons p ps)
    show ?thesis
    proof (cases "is_filled (deref (orders b) p) \<or> status (deref (orders b) p) = CANCELLED")
      case True
      from Cons True 1 [OF Cons True] show ?thesis by (rule step)
    next
      case False
      with Cons show ?thesis by (intro stop clean_asks_stop) simp
    qed
  qed
qed

lemma orders_clean_bids [simp]: "orders (clean_bids b) = orders b"
proof (induction b rule: clean_bids_induct)
  case (stop b)
  then show ?case by simp
next
  case (step b p ps)
  then show ?case by (simp add: clean_bids_step)
qed

lemma orders_clean_asks [simp]: "orders (clean_asks b) = orders b"
proof (induction b rule: clean_asks_induct)
  case (stop b)
  then show ?case by simp
next
  case (step b p ps)
  then show ?case by (simp add: clean_asks_step)
qed

lemma orders_clean_filled_orders [simp]: "orders (clean_filled_orders b) = orders b"
  by (simp add: clean_filled_orders_def)

lemma process_order_keeps_terminal:
  assumes "orders b oid = Some ord" "terminal ord" "order_id inc \<noteq> oid"
  shows "orders (fst (snd (process_order b inc))) oid = Some ord"
proof -
  obtain ts b1 inc1 where m: "match_side (side inc) b inc [] = (ts, b1, inc1)"
    by (cases "match_side (side inc) b inc []") auto
  from match_side_keeps_terminal [OF assms(1,2), of "side inc" inc "[]"] m
  have "orders b1 oid = Some ord" by simp
  moreover from match_side_incoming [of "side inc" b inc "[]"] m
  have "order_id inc1 = order_id inc" by simp
  ultimately show ?thesis
    using assms(3) m
    by (simp add: process_order_def match_order_side add_order_unlocked_def Let_def)
qed

subsection \<open>The trades of the loop\<close>

text \<open>Every trade of the result beyond the accumulator was produced by an iteration at a
  state the loop reached, and the accumulator only grows at its end.\<close>

lemma match_reaches_order_id: "match_reaches s b inc b1 inc1 \<Longrightarrow> order_id inc1 = order_id inc"
proof (induction rule: match_reaches.induct)
  case start
  show ?case by simp
next
  case (skip b1 inc1 b2)
  then show ?case by simp
next
  case (matched b1 inc1 b2 inc2 t)
  from matched.hyps(2) have "order_id inc2 = order_id inc1"
    by (auto elim!: match_iteration_Match)
  with matched.IH show ?case by simp
qed

lemma match_iteration_trade:
  assumes "match_iteration s b inc = Match b' inc' t"
  shows "\<exists>top_order. resting_top_order s b = Some top_order \<and>
           status top_order \<noteq> CANCELLED \<and>
           maker_order_id t = order_id top_order \<and> taker_order_id t = order_id inc \<and>
           t_price t = price top_order \<and>
           t_quantity t = min (remaining_quantity inc) (remaining_quantity top_order)"
  using assms
  by (auto elim!: match_iteration_Match simp: resting_top_order_def make_trade_def)

lemma match_side_trades:
  assumes "match_reaches s b inc b1 inc1" "t \<in> set (fst (match_side s b1 inc1 ts))"
  shows "t \<in> set ts \<or>
         (\<exists>b2 inc2 b3 inc3. match_reaches s b inc b2 inc2 \<and>
            match_iteration s b2 inc2 = Match b3 inc3 t)"
  using assms
proof (induction b1 inc1 ts rule: match_side_induct [where s = s])
  case (Exit b1 inc1 ts)
  then show ?case by (simp add: match_side_Exit)
next
  case (Skip b1 inc1 ts b')
  from Skip.prems(1) Skip.hyps have "match_reaches s b inc b' inc1"
    by (rule match_reaches.skip)
  with Skip show ?case by (simp add: match_side_Skip)
next
  case (Match b1 inc1 ts b' inc' t')
  from Match.prems(1) Match.hyps have r: "match_reaches s b inc b' inc'"
    by (rule match_reaches.matched)
  from Match.prems(2) Match.hyps have "t \<in> set (fst (match_side s b' inc' (ts @ [t'])))"
    by (simp add: match_side_Match)
  from Match.IH [OF r this] show ?case
  proof
    assume "t \<in> set (ts @ [t'])"
    then show ?thesis
      using Match.prems(1) Match.hyps by auto
  next
    assume "\<exists>b2 inc2 b3 inc3. match_reaches s b inc b2 inc2 \<and>
      match_iteration s b2 inc2 = Match b3 inc3 t"
    then show ?thesis ..
  qed
qed

lemma fst_process_order: "fst (process_order b inc) = fst (match_side (side inc) b inc [])"
  by (simp add: process_order_def match_order_side Let_def split: prod.splits)

lemma fst_match_side_acc:
  "fst (match_side s b inc acc) = acc @ fst (match_side s b inc [])"
proof -
  have "\<forall>acc. fst (match_side s b inc acc) = acc @ fst (match_side s b inc [])"
  proof (rule match_side_induct [where s = s and ts = "[]" and
        P = "\<lambda>b inc ts. \<forall>acc. fst (match_side s b inc acc) = acc @ fst (match_side s b inc [])"])
    fix b inc and ts :: "Trade list"
    assume "match_iteration s b inc = Exit"
    then have "match_side s b inc acc = (acc, b, inc)" for acc
      by (rule match_side_Exit)
    then show "\<forall>acc. fst (match_side s b inc acc) = acc @ fst (match_side s b inc [])"
      by simp
  next
    fix b inc b' and ts :: "Trade list"
    assume "match_iteration s b inc = Skip b'"
    then have step: "match_side s b inc acc = match_side s b' inc acc" for acc
      by (rule match_side_Skip)
    assume "\<forall>acc. fst (match_side s b' inc acc) = acc @ fst (match_side s b' inc [])"
    then show "\<forall>acc. fst (match_side s b inc acc) = acc @ fst (match_side s b inc [])"
      unfolding step .
  next
    fix b inc b' inc' t and ts :: "Trade list"
    assume "match_iteration s b inc = Match b' inc' t"
    then have step: "match_side s b inc acc = match_side s b' inc' (acc @ [t])" for acc
      by (rule match_side_Match)
    assume IH: "\<forall>acc. fst (match_side s b' inc' acc) = acc @ fst (match_side s b' inc' [])"
    show "\<forall>acc. fst (match_side s b inc acc) = acc @ fst (match_side s b inc [])"
    proof
      fix acc
      have "fst (match_side s b inc acc) = (acc @ [t]) @ fst (match_side s b' inc' [])"
        unfolding step by (rule IH [rule_format])
      moreover have "fst (match_side s b inc []) = ([] @ [t]) @ fst (match_side s b' inc' [])"
        unfolding step by (rule IH [rule_format])
      ultimately show "fst (match_side s b inc acc) = acc @ fst (match_side s b inc [])"
        by simp
    qed
  qed
  then show ?thesis by (rule spec)
qed

lemma new_trades_Match:
  "match_iteration s b inc = Match b' inc' t \<Longrightarrow>
   fst (match_side s b inc []) = t # fst (match_side s b' inc' [])"
  using fst_match_side_acc [of s b' inc' "[t]"] by (simp add: match_side_Match)

subsection \<open>The elements of a queue\<close>

text \<open>A push adds its element to those of the queue and a pop removes the front: the moves
  inside the vector are swaps.\<close>

lemma nth_swap:
  "i < length xs \<Longrightarrow> j < length xs \<Longrightarrow> k < length xs \<Longrightarrow>
   xs[i := xs ! j, j := xs ! i] ! k = (if k = j then xs ! i else if k = i then xs ! j else xs ! k)"
  by (simp add: nth_list_update)

lemma set_swap_list:
  "i < length xs \<Longrightarrow> j < length xs \<Longrightarrow> set (xs[i := xs ! j, j := xs ! i]) = set xs"
  by (simp add: set_swap)

lemma set_sift_up: "i < length xs \<Longrightarrow> set (sift_up cmp xs i) = set xs"
proof (induction cmp xs i rule: sift_up.induct)
  case (1 cmp xs i)
  show ?case
  proof (cases "0 < i \<and> cmp (xs ! parent i) (xs ! i)")
    case True
    then have p: "parent i < length xs"
      using parent_less [of i] "1.prems" by simp
    have "set (sift_up cmp (xs[i := xs ! parent i, parent i := xs ! i]) (parent i)) =
          set (xs[i := xs ! parent i, parent i := xs ! i])"
      using True p by (intro "1.IH") simp_all
    with True p "1.prems" show ?thesis by (simp add: sift_up_step set_swap_list)
  next
    case False
    then show ?thesis by (simp add: sift_up_stop)
  qed
qed

lemma set_sift_down: "set (sift_down cmp xs i) = set xs"
proof (induction cmp xs i rule: sift_down.induct)
  case (1 cmp xs i)
  show ?case
  proof (cases "2 * i + 1 < length xs \<and> cmp (xs ! i) (xs ! larger_child cmp xs i)")
    case True
    then have "larger_child cmp xs i < length xs" "i < length xs"
      using larger_child_bounds [of i xs cmp] by simp_all
    with 1 True show ?thesis by (simp add: sift_down_step set_swap_list)
  next
    case False
    then show ?thesis by (simp add: sift_down_stop)
  qed
qed

lemma set_pq_pop [simp]: "set (pq_pop cmp p ps) = set ps"
proof (cases "ps = []")
  case True
  then show ?thesis by (simp add: pq_pop_def)
next
  case False
  have "set (last ps # butlast ps) = set (butlast ps @ [last ps])" by auto
  with False show ?thesis by (simp add: pq_pop_def set_sift_down del: set_append)
qed

lemma set_pq_push [simp]: "set (pq_push cmp xs x) = insert x (set xs)"
  by (simp add: pq_push_def set_sift_up)



subsection \<open>Cleaning the queues\<close>

text \<open>The match loop does not run for an exhausted order, and \<^verbatim>\<open>clean_filled_orders\<close>
  pops only orders that the queries skip anyway: it changes neither the map of the
  orders, nor the best bid, the best ask or the levels.\<close>

lemma match_iteration_exhausted:
  "remaining_quantity inc = 0 \<Longrightarrow> match_iteration s b inc = Exit"
  by (simp add: match_iteration_def split: list.splits)

lemma match_order_exhausted:
  "remaining_quantity inc = 0 \<Longrightarrow> match_order b inc = ([], b, inc)"
  by (simp add: match_order_side match_side_Exit match_iteration_exhausted)

lemma asks_clean_bids [simp]: "asks (clean_bids b) = asks b"
proof (induction b rule: clean_bids_induct)
  case (stop b)
  then show ?case by simp
next
  case (step b p ps)
  then show ?case by (simp add: clean_bids_step)
qed

lemma bids_clean_asks [simp]: "bids (clean_asks b) = bids b"
proof (induction b rule: clean_asks_induct)
  case (stop b)
  then show ?case by simp
next
  case (step b p ps)
  then show ?case by (simp add: clean_asks_step)
qed

lemma aggregate_levels_loop_pop_dead:
  assumes "status (deref m p) = CANCELLED \<or> is_filled (deref m p)"
  shows "aggregate_levels_loop m cmp (pq_pop (ptr_cmp m cmp) p ps) n lm =
         aggregate_levels_loop m cmp (p # ps) n lm"
proof (cases "length lm < n")
  case True
  with assms show ?thesis
    by (subst (2) aggregate_levels_loop.simps) simp
next
  case False
  then have "aggregate_levels_loop m cmp xs n lm = lm" for xs
    by (subst aggregate_levels_loop.simps) (simp split: list.splits)
  then show ?thesis by simp
qed

lemma best_bid_loop_pop_dead:
  assumes "is_filled (deref m p) \<or> status (deref m p) = CANCELLED"
  shows "best_bid_loop m (pq_pop (ptr_cmp m BuyOrderComparator) p ps) = best_bid_loop m (p # ps)"
  using assms by (subst (2) best_bid_loop.simps) auto

lemma best_ask_loop_pop_dead:
  assumes "is_filled (deref m p) \<or> status (deref m p) = CANCELLED"
  shows "best_ask_loop m (pq_pop (ptr_cmp m SellOrderComparator) p ps) = best_ask_loop m (p # ps)"
  using assms by (subst (2) best_ask_loop.simps) auto

lemma clean_bids_observables:
  "best_bid_loop (orders b) (bids (clean_bids b)) = best_bid_loop (orders b) (bids b) \<and>
   aggregate_levels_loop (orders b) BuyOrderComparator (bids (clean_bids b)) n lm =
     aggregate_levels_loop (orders b) BuyOrderComparator (bids b) n lm"
proof (induction b rule: clean_bids_induct)
  case (stop b)
  then show ?case by simp
next
  case (step b p ps)
  from step.hyps(2) have dead: "status (deref (orders b) p) = CANCELLED \<or>
      is_filled (deref (orders b) p)" by blast
  from step.IH show ?case
    unfolding clean_bids_step [OF step.hyps]
    using best_bid_loop_pop_dead [OF step.hyps(2), of ps]
      aggregate_levels_loop_pop_dead [OF dead, of BuyOrderComparator ps n lm]
    by (simp add: step.hyps(1))
qed

lemma clean_asks_observables:
  "best_ask_loop (orders b) (asks (clean_asks b)) = best_ask_loop (orders b) (asks b) \<and>
   aggregate_levels_loop (orders b) SellOrderComparator (asks (clean_asks b)) n lm =
     aggregate_levels_loop (orders b) SellOrderComparator (asks b) n lm"
proof (induction b rule: clean_asks_induct)
  case (stop b)
  then show ?case by simp
next
  case (step b p ps)
  from step.hyps(2) have dead: "status (deref (orders b) p) = CANCELLED \<or>
      is_filled (deref (orders b) p)" by blast
  from step.IH show ?case
    unfolding clean_asks_step [OF step.hyps]
    using best_ask_loop_pop_dead [OF step.hyps(2), of ps]
      aggregate_levels_loop_pop_dead [OF dead, of SellOrderComparator ps n lm]
    by (simp add: step.hyps(1))
qed

lemma clean_filled_orders_observables:
  "get_best_bid (clean_filled_orders b) = get_best_bid b \<and>
   get_best_ask (clean_filled_orders b) = get_best_ask b \<and>
   get_bid_levels (clean_filled_orders b) n = get_bid_levels b n \<and>
   get_ask_levels (clean_filled_orders b) n = get_ask_levels b n"
  using clean_bids_observables [of b n "[]"] clean_asks_observables [of "clean_bids b" n "[]"]
  by (simp add: clean_filled_orders_def get_best_bid_def get_best_ask_def get_bid_levels_def
        get_ask_levels_def aggregate_levels_impl_def)

lemma set_bids_clean_bids: "set (bids (clean_bids b)) \<subseteq> set (bids b)"
proof (induction b rule: clean_bids_induct)
  case (stop b)
  then show ?case by simp
next
  case (step b p ps)
  then show ?case by (auto simp: clean_bids_step)
qed

lemma set_asks_clean_asks: "set (asks (clean_asks b)) \<subseteq> set (asks b)"
proof (induction b rule: clean_asks_induct)
  case (stop b)
  then show ?case by simp
next
  case (step b p ps)
  then show ?case by (auto simp: clean_asks_step)
qed

lemma queues_clean_filled_orders:
  "set (bids (clean_filled_orders b)) \<subseteq> set (bids b) \<and>
   set (asks (clean_filled_orders b)) \<subseteq> set (asks b)"
  using set_bids_clean_bids [of b] set_asks_clean_asks [of "clean_bids b"]
  by (simp add: clean_filled_orders_def)

lemma process_order_zero_quantity:
  "quantity ord = 0 \<Longrightarrow> filled_quantity ord = 0 \<Longrightarrow>
   process_order b ord = ([], clean_filled_orders b, False)"
  by (simp add: process_order_def match_order_exhausted remaining_quantity_def is_filled_def)

lemma new_OrderBook_observables:
  "get_best_bid (new_OrderBook symb) = Fin 0 \<and> get_best_ask (new_OrderBook symb) = Fin 0 \<and>
   get_bid_levels (new_OrderBook symb) n = [] \<and> get_ask_levels (new_OrderBook symb) n = []"
  by (simp add: new_OrderBook_def get_best_bid_def get_best_ask_def get_bid_levels_def
        get_ask_levels_def aggregate_levels_impl_def loop_simps)

subsection \<open>Requests and the books of other symbols\<close>

lemma submit_order_other_book:
  "symb' \<noteq> symb \<Longrightarrow>
   order_books (snd (snd (submit_order e client symb' s p q stale))) symb = order_books e symb"
  by (simp add: submit_order_def get_or_create_book_def Let_def split: option.splits prod.splits)

lemma engine_cancel_order_no_new_book:
  "order_books e symb = None \<Longrightarrow> order_books (snd (engine_cancel_order e oid)) symb = None"
  by (auto simp: engine_cancel_order_def Let_def split: option.splits prod.splits)

lemma apply_request_no_new_book:
  "\<not> submits_symbol symb r \<Longrightarrow> order_books e symb = None \<Longrightarrow>
   order_books (apply_request e r) symb = None"
  by (cases r) (simp_all add: submit_order_other_book engine_cancel_order_no_new_book)

lemma foldl_no_new_book:
  "list_all (\<lambda>r. \<not> submits_symbol symb r) reqs \<Longrightarrow> order_books e symb = None \<Longrightarrow>
   order_books (foldl apply_request e reqs) symb = None"
  by (induction reqs arbitrary: e) (simp_all add: apply_request_no_new_book)

subsection \<open>Pointers and their objects\<close>

text \<open>\<open>ptrs_valid b\<close>: every pointer in a queue of \<open>b\<close> has its object in the map of the
  orders, stored under the object's own order id. It holds in an empty book, every
  operation of the book keeps it, and so it holds in every book of an engine that a
  sequence of requests has built (\<open>ptrs_valid_run\<close>).\<close>

definition ptrs_valid :: "OrderBook \<Rightarrow> bool" where
  "ptrs_valid b \<longleftrightarrow>
     (\<forall>p \<in> set (bids b) \<union> set (asks b). \<exists>ord. orders b p = Some ord \<and> order_id ord = p)"

lemma ptrs_valid_subset:
  assumes "ptrs_valid b" "orders b' = orders b" "set (bids b') \<subseteq> set (bids b)"
    "set (asks b') \<subseteq> set (asks b)"
  shows "ptrs_valid b'"
proof (unfold ptrs_valid_def, intro ballI)
  fix p
  assume "p \<in> set (bids b') \<union> set (asks b')"
  with assms(3,4) have "p \<in> set (bids b) \<union> set (asks b)" by auto
  with assms(1) obtain ord where "orders b p = Some ord" "order_id ord = p"
    unfolding ptrs_valid_def by blast
  with assms(2) show "\<exists>ord. orders b' p = Some ord \<and> order_id ord = p" by simp
qed

lemma ptrs_valid_pop_resting:
  assumes "ptrs_valid b" "resting_queue s b = p # ps"
  shows "ptrs_valid (pop_resting s p ps b)"
  using assms(1)
proof (rule ptrs_valid_subset)
  show "orders (pop_resting s p ps b) = orders b" by simp
  show "set (bids (pop_resting s p ps b)) \<subseteq> set (bids b)"
    using assms(2) by (cases s) (auto simp: pop_resting_def resting_queue_def)
  show "set (asks (pop_resting s p ps b)) \<subseteq> set (asks b)"
    using assms(2) by (cases s) (auto simp: pop_resting_def resting_queue_def)
qed

lemma ptrs_valid_resting:
  assumes "ptrs_valid b" "p \<in> set (resting_queue s b)"
  shows "orders b p \<noteq> None \<and> order_id (deref (orders b) p) = p"
proof -
  from assms(2) have "p \<in> set (bids b) \<union> set (asks b)"
    by (cases s) (simp_all add: resting_queue_def)
  with assms(1) obtain ord where "orders b p = Some ord" "order_id ord = p"
    unfolding ptrs_valid_def by blast
  then show ?thesis by (simp add: deref_def)
qed

lemma ptrs_valid_fill:
  assumes "ptrs_valid b" "order_id (deref (orders b) p) = p"
  shows "ptrs_valid (b\<lparr>orders := (orders b)(p \<mapsto> fill (deref (orders b) p) q),
                      next_trade_id := n\<rparr>)"
  unfolding ptrs_valid_def
proof
  fix r
  assume "r \<in> set (bids (b\<lparr>orders := (orders b)(p \<mapsto> fill (deref (orders b) p) q),
      next_trade_id := n\<rparr>)) \<union> set (asks (b\<lparr>orders := (orders b)(p \<mapsto>
      fill (deref (orders b) p) q), next_trade_id := n\<rparr>))"
  then have "r \<in> set (bids b) \<union> set (asks b)" by simp
  with assms(1) obtain ord where "orders b r = Some ord" "order_id ord = r"
    unfolding ptrs_valid_def by blast
  with assms(2) show "\<exists>ord. orders (b\<lparr>orders := (orders b)(p \<mapsto> fill (deref (orders b) p) q),
      next_trade_id := n\<rparr>) r = Some ord \<and> order_id ord = r"
    by (cases "r = p") simp_all
qed

lemma ptrs_valid_iteration:
  assumes "ptrs_valid b"
  shows "match_iteration s b inc = Skip b' \<Longrightarrow> ptrs_valid b'"
    and "match_iteration s b inc = Match b' inc' t \<Longrightarrow> ptrs_valid b'"
proof -
  assume "match_iteration s b inc = Skip b'"
  then obtain p ps where "resting_queue s b = p # ps" "b' = pop_resting s p ps b"
    by (rule match_iteration_Skip)
  with assms show "ptrs_valid b'"
    by (simp add: ptrs_valid_pop_resting)
next
  assume "match_iteration s b inc = Match b' inc' t"
  then obtain p ps top_order q b1 where m0: "resting_queue s b = p # ps"
    "top_order = deref (orders b) p"
    "b1 = b\<lparr>orders := (orders b)(p \<mapsto> fill top_order q),
             next_trade_id := next_trade_id b + 1\<rparr>"
    "b' = (if is_filled (fill top_order q) then pop_resting s p ps b1 else b1)"
    by (rule match_iteration_Match)
  then have m: "resting_queue s b = p # ps"
    "b1 = b\<lparr>orders := (orders b)(p \<mapsto> fill (deref (orders b) p) q),
             next_trade_id := next_trade_id b + 1\<rparr>"
    "b' = (if is_filled (fill (deref (orders b) p) q) then pop_resting s p ps b1 else b1)"
    by simp_all
  have "p \<in> set (resting_queue s b)"
    using m(1) by simp
  with assms have "order_id (deref (orders b) p) = p"
    by (simp add: ptrs_valid_resting)
  with assms have v1: "ptrs_valid b1"
    unfolding m(2) by (rule ptrs_valid_fill)
  have "resting_queue s b1 = p # ps"
    using m(1) by (cases s) (simp_all add: m(2) resting_queue_def)
  with v1 show "ptrs_valid b'"
    by (simp add: m(3) ptrs_valid_pop_resting)
qed

lemma ptrs_valid_new_OrderBook: "ptrs_valid (new_OrderBook symb)"
  by (simp add: ptrs_valid_def new_OrderBook_def)

lemma ptrs_valid_cancel_order:
  assumes "ptrs_valid b"
  shows "ptrs_valid (snd (cancel_order b oid))"
proof (cases "orders b oid")
  case None
  with assms show ?thesis by (simp add: cancel_order_def)
next
  case (Some ord)
  show ?thesis
    unfolding ptrs_valid_def
  proof
    fix p
    assume "p \<in> set (bids (snd (cancel_order b oid))) \<union> set (asks (snd (cancel_order b oid)))"
    with Some have "p \<in> set (bids b) \<union> set (asks b)"
      by (simp add: cancel_order_def)
    with assms obtain ord' where "orders b p = Some ord'" "order_id ord' = p"
      unfolding ptrs_valid_def by blast
    with Some show "\<exists>ord. orders (snd (cancel_order b oid)) p = Some ord \<and> order_id ord = p"
      by (cases "p = oid") (simp_all add: cancel_order_def cancel_def)
  qed
qed

lemma ptrs_valid_match_side:
  "ptrs_valid b \<Longrightarrow> ptrs_valid (fst (snd (match_side s b inc ts)))"
proof (induction b inc ts rule: match_side_induct [where s = s])
  case (Exit b inc ts)
  then show ?case by (simp add: match_side_Exit)
next
  case (Skip b inc ts b')
  from Skip.prems Skip.hyps have "ptrs_valid b'" by (rule ptrs_valid_iteration(1))
  with Skip show ?case by (simp add: match_side_Skip)
next
  case (Match b inc ts b' inc' t)
  from Match.prems Match.hyps have "ptrs_valid b'" by (rule ptrs_valid_iteration(2))
  with Match show ?case by (simp add: match_side_Match)
qed

lemma ptrs_valid_add_order_unlocked:
  assumes "ptrs_valid b"
  shows "ptrs_valid (add_order_unlocked b ord)"
  unfolding ptrs_valid_def
proof
  fix p
  assume p: "p \<in> set (bids (add_order_unlocked b ord)) \<union> set (asks (add_order_unlocked b ord))"
  show "\<exists>ord'. orders (add_order_unlocked b ord) p = Some ord' \<and> order_id ord' = p"
  proof (cases "p = order_id ord")
    case True
    then show ?thesis by (simp add: add_order_unlocked_def Let_def)
  next
    case False
    with p have "p \<in> set (bids b) \<union> set (asks b)"
      by (auto simp: add_order_unlocked_def Let_def split: if_splits)
    with assms obtain ord' where "orders b p = Some ord'" "order_id ord' = p"
      unfolding ptrs_valid_def by blast
    with False show ?thesis by (simp add: add_order_unlocked_def Let_def)
  qed
qed

lemma ptrs_valid_clean_filled_orders:
  assumes "ptrs_valid b"
  shows "ptrs_valid (clean_filled_orders b)"
  using assms
proof (rule ptrs_valid_subset)
  show "orders (clean_filled_orders b) = orders b" by simp
  show "set (bids (clean_filled_orders b)) \<subseteq> set (bids b)"
    using queues_clean_filled_orders [of b] by simp
  show "set (asks (clean_filled_orders b)) \<subseteq> set (asks b)"
    using queues_clean_filled_orders [of b] by simp
qed

lemma ptrs_valid_process_order:
  assumes "ptrs_valid b"
  shows "ptrs_valid (fst (snd (process_order b inc)))"
proof -
  obtain ts b1 inc1 where m: "match_side (side inc) b inc [] = (ts, b1, inc1)"
    by (cases "match_side (side inc) b inc []") auto
  from ptrs_valid_match_side [OF assms, of "side inc" inc "[]"] m have "ptrs_valid b1"
    by simp
  then show ?thesis
    using m
    by (simp add: process_order_def match_order_side Let_def ptrs_valid_clean_filled_orders
          ptrs_valid_add_order_unlocked)
qed

lemma submit_order_book:
  "order_books (snd (snd (submit_order e client symb s p q stale))) symb =
     Some (fst (snd (process_order
       (case order_books e symb of Some book \<Rightarrow> book | None \<Rightarrow> new_OrderBook symb)
       (new_Order (next_order_id e) client symb s p q))))"
  by (cases "order_books e symb")
     (auto simp: submit_order_def get_or_create_book_def Let_def split: prod.splits)

lemma ptrs_valid_submit_order:
  assumes "\<And>symb b. order_books e symb = Some b \<Longrightarrow> ptrs_valid b"
    and "order_books (snd (snd (submit_order e client symb' s p q stale))) symb = Some b"
  shows "ptrs_valid b"
proof (cases "symb = symb'")
  case False
  with assms show ?thesis by (simp add: submit_order_other_book)
next
  case True
  define b0 where "b0 = (case order_books e symb' of Some book \<Rightarrow> book
                          | None \<Rightarrow> new_OrderBook symb')"
  have "ptrs_valid b0"
    using assms(1) [of symb'] by (cases "order_books e symb'")
      (simp_all add: b0_def ptrs_valid_new_OrderBook)
  moreover have "b = fst (snd (process_order b0 (new_Order (next_order_id e) client symb' s p q)))"
    using assms(2) True by (simp add: submit_order_book b0_def)
  ultimately show ?thesis by (simp add: ptrs_valid_process_order)
qed

lemma engine_cancel_order_book:
  assumes "order_books (snd (engine_cancel_order e oid)) symb = Some b"
  shows "order_books e symb = Some b \<or>
         (\<exists>book. order_books e symb = Some book \<and> b = snd (cancel_order book oid))"
  using assms
  by (auto simp: engine_cancel_order_def Let_def split: option.splits prod.splits if_splits)

lemma ptrs_valid_engine_cancel_order:
  assumes "\<And>symb b. order_books e symb = Some b \<Longrightarrow> ptrs_valid b"
    and "order_books (snd (engine_cancel_order e oid)) symb = Some b"
  shows "ptrs_valid b"
  using engine_cancel_order_book [OF assms(2)] assms(1) ptrs_valid_cancel_order by blast

lemma ptrs_valid_run: "order_books (run reqs) symb = Some b \<Longrightarrow> ptrs_valid b"
proof -
  have "\<forall>symb b. order_books (foldl apply_request e reqs) symb = Some b \<longrightarrow> ptrs_valid b"
    if "\<forall>symb b. order_books e symb = Some b \<longrightarrow> ptrs_valid b" for e
    using that
  proof (induction reqs arbitrary: e)
    case Nil
    then show ?case by simp
  next
    case (Cons r reqs)
    have "\<forall>symb b. order_books (apply_request e r) symb = Some b \<longrightarrow> ptrs_valid b"
    proof (cases r)
      case (Submit client symb' s p q stale)
      with Cons.prems show ?thesis
        by (auto intro: ptrs_valid_submit_order)
    next
      case (Cancel oid)
      with Cons.prems show ?thesis
        by (auto intro: ptrs_valid_engine_cancel_order)
    qed
    from Cons.IH [OF this] show ?case by simp
  qed
  moreover have "\<forall>symb b. order_books new_MatchingEngine symb = Some b \<longrightarrow> ptrs_valid b"
    by (simp add: new_MatchingEngine_def)
  ultimately show "order_books (run reqs) symb = Some b \<Longrightarrow> ptrs_valid b"
    unfolding run_def by blast
qed

subsection \<open>The front of a queue\<close>

text \<open>\<open>is_heap cmp xs\<close>: the comparator puts no element of the vector above its parent.
  \<open>strict_weak_on S cmp\<close>: on the elements of \<open>S\<close> the comparator is irreflexive and
  transitive, and so is its complement. For such a comparator a push and a pop keep the
  vector a heap, and the front of a heap is an element that the comparator puts below no
  other.\<close>

definition is_heap :: "('a \<Rightarrow> 'a \<Rightarrow> bool) \<Rightarrow> 'a list \<Rightarrow> bool" where
  "is_heap cmp xs \<longleftrightarrow> list_all (\<lambda>i. \<not> cmp (xs ! parent i) (xs ! i)) [1..<length xs]"

definition strict_weak_on :: "'a set \<Rightarrow> ('a \<Rightarrow> 'a \<Rightarrow> bool) \<Rightarrow> bool" where
  "strict_weak_on S cmp \<longleftrightarrow>
     (\<forall>a\<in>S. \<not> cmp a a) \<and>
     (\<forall>a\<in>S. \<forall>b\<in>S. \<forall>c\<in>S. cmp a b \<longrightarrow> cmp b c \<longrightarrow> cmp a c) \<and>
     (\<forall>a\<in>S. \<forall>b\<in>S. \<forall>c\<in>S. \<not> cmp a b \<longrightarrow> \<not> cmp b c \<longrightarrow> \<not> cmp a c)"

lemma is_heap_iff:
  "is_heap cmp xs \<longleftrightarrow> (\<forall>j. 0 < j \<longrightarrow> j < length xs \<longrightarrow> \<not> cmp (xs ! parent j) (xs ! j))"
  by (auto simp: is_heap_def list_all_iff)

lemma parent_child: "0 < j \<Longrightarrow> parent j = i \<longleftrightarrow> j = 2 * i + 1 \<or> j = 2 * i + 2"
  by (auto simp: parent_def)

lemma strict_weak_irrefl: "strict_weak_on S cmp \<Longrightarrow> a \<in> S \<Longrightarrow> \<not> cmp a a"
  unfolding strict_weak_on_def by blast

lemma strict_weak_asym:
  "strict_weak_on S cmp \<Longrightarrow> a \<in> S \<Longrightarrow> b \<in> S \<Longrightarrow> cmp a b \<Longrightarrow> \<not> cmp b a"
  unfolding strict_weak_on_def by blast

lemma strict_weak_trans:
  "strict_weak_on S cmp \<Longrightarrow> a \<in> S \<Longrightarrow> b \<in> S \<Longrightarrow> c \<in> S \<Longrightarrow> cmp a b \<Longrightarrow> cmp b c \<Longrightarrow> cmp a c"
  unfolding strict_weak_on_def by blast

lemma strict_weak_negtrans:
  "strict_weak_on S cmp \<Longrightarrow> a \<in> S \<Longrightarrow> b \<in> S \<Longrightarrow> c \<in> S \<Longrightarrow>
   \<not> cmp a b \<Longrightarrow> \<not> cmp b c \<Longrightarrow> \<not> cmp a c"
  unfolding strict_weak_on_def by blast

lemma sift_up_heap:
  "strict_weak_on S cmp \<Longrightarrow> set xs \<subseteq> S \<Longrightarrow> i < length xs \<Longrightarrow>
    (\<forall>j. 0 < j \<longrightarrow> j < length xs \<longrightarrow> j \<noteq> i \<longrightarrow> \<not> cmp (xs ! parent j) (xs ! j)) \<Longrightarrow>
    (\<forall>j. 0 < j \<longrightarrow> j < length xs \<longrightarrow> parent j = i \<longrightarrow> 0 < i \<longrightarrow>
         \<not> cmp (xs ! parent i) (xs ! j)) \<Longrightarrow>
    is_heap cmp (sift_up cmp xs i)"
proof (induction cmp xs i rule: sift_up.induct)
  case (1 cmp xs i)
  note so = "1.prems"(1) and subS = "1.prems"(2) and il = "1.prems"(3)
    and edges = "1.prems"(4) and grand = "1.prems"(5)
  have inS: "xs ! k \<in> S" if "k < length xs" for k
    using that subS by (auto simp: subset_eq)
  show ?case
  proof (cases "i = 0")
    case True
    with edges show ?thesis
      by (simp add: sift_up_stop is_heap_iff)
  next
    case False
    define p where "p = parent i"
    have pi: "p < i" using False by (simp add: p_def parent_less)
    have pl: "p < length xs" using pi il by simp
    show ?thesis
    proof (cases "cmp (xs ! p) (xs ! i)")
      case nc: False
      have "is_heap cmp xs"
        unfolding is_heap_iff
      proof (intro allI impI)
        fix j assume "0 < j" "j < length xs"
        then show "\<not> cmp (xs ! parent j) (xs ! j)"
          using edges nc by (cases "j = i") (auto simp: p_def)
      qed
      with nc show ?thesis
        by (simp add: sift_up_stop p_def)
    next
      case c: True
      define ys where "ys = xs[i := xs ! p, p := xs ! i]"
      have ysn: "ys ! k = (if k = p then xs ! i else if k = i then xs ! p else xs ! k)"
        if "k < length xs" for k
        unfolding ys_def using that pl il by (simp add: nth_swap)
      have len: "length ys = length xs" by (simp add: ys_def)
      have sub: "set ys \<subseteq> S"
        using subS il pl unfolding ys_def by (simp add: set_swap_list)
      have A: "\<forall>j. 0 < j \<longrightarrow> j < length ys \<longrightarrow> j \<noteq> p \<longrightarrow> \<not> cmp (ys ! parent j) (ys ! j)"
      proof (intro allI impI)
        fix j assume j: "0 < j" "j < length ys" "j \<noteq> p"
        then have jl: "j < length xs" and pjl: "parent j < length xs"
          using parent_less [of j] by (simp_all add: len)
        show "\<not> cmp (ys ! parent j) (ys ! j)"
        proof (cases "j = i")
          case True
          then have "ys ! j = xs ! p" "ys ! parent j = xs ! i"
            using ysn [OF jl] ysn [OF pl] pi by (simp_all add: p_def)
          then show ?thesis
            using strict_weak_asym [OF so inS [OF pl] inS [OF il] c] by simp
        next
          case ji: False
          then have yj: "ys ! j = xs ! j" using ysn [OF jl] j by simp
          show ?thesis
          proof (cases "parent j = i")
            case True
            then have "ys ! parent j = xs ! p" using ysn [OF il] pi by simp
            moreover have "\<not> cmp (xs ! parent i) (xs ! j)"
              using grand j(1) jl True False by simp
            ultimately show ?thesis using yj by (simp add: p_def)
          next
            case pji: False
            show ?thesis
            proof (cases "parent j = p")
              case True
              then have yp: "ys ! parent j = xs ! i" using ysn [OF pl] by simp
              have "\<not> cmp (xs ! p) (xs ! j)"
                using edges j(1) jl ji True by auto
              then have "\<not> cmp (xs ! i) (xs ! j)"
                using strict_weak_trans [OF so inS [OF pl] inS [OF il] inS [OF jl] c]
                by blast
              with yp yj show ?thesis by simp
            next
              case False
              then have "ys ! parent j = xs ! parent j" using ysn [OF pjl] pji by simp
              with yj edges j(1) jl ji show ?thesis by simp
            qed
          qed
        qed
      qed
      have B: "\<forall>j. 0 < j \<longrightarrow> j < length ys \<longrightarrow> parent j = p \<longrightarrow> 0 < p \<longrightarrow>
                 \<not> cmp (ys ! parent p) (ys ! j)"
      proof (intro allI impI)
        fix j assume j: "0 < j" "j < length ys" "parent j = p" "0 < p"
        then have jl: "j < length xs" by (simp add: len)
        have ppl: "parent p < length xs" "parent p < p"
          using parent_less [OF j(4)] pl by simp_all
        have ypp: "ys ! parent p = xs ! parent p"
          using ysn [OF ppl(1)] ppl(2) pi by simp
        have e1: "\<not> cmp (xs ! parent p) (xs ! p)"
          using edges j(4) pl pi by simp
        have jp: "j \<noteq> p" using parent_less [OF j(1)] j(3) by simp
        show "\<not> cmp (ys ! parent p) (ys ! j)"
        proof (cases "j = i")
          case True
          then have "ys ! j = xs ! p" using ysn [OF jl] pi by simp
          with ypp e1 show ?thesis by simp
        next
          case False
          then have yj: "ys ! j = xs ! j" using ysn [OF jl] jp by simp
          have "\<not> cmp (xs ! p) (xs ! j)"
            using edges j(1,3) jl False by auto
          with e1 have "\<not> cmp (xs ! parent p) (xs ! j)"
            using strict_weak_negtrans [OF so inS [OF ppl(1)] inS [OF pl] inS [OF jl]] by blast
          with ypp yj show ?thesis by simp
        qed
      qed
      have "is_heap cmp (sift_up cmp ys p)"
        unfolding ys_def p_def
      proof (rule "1.IH" [OF False])
        show "cmp (xs ! parent i) (xs ! i)" using c by (simp add: p_def)
        show "strict_weak_on S cmp" by (rule so)
        show "set (xs[i := xs ! parent i, parent i := xs ! i]) \<subseteq> S"
          using sub by (simp add: ys_def p_def)
        show "parent i < length (xs[i := xs ! parent i, parent i := xs ! i])"
          using pl by (simp add: p_def)
        show "\<forall>j. 0 < j \<longrightarrow> j < length (xs[i := xs ! parent i, parent i := xs ! i]) \<longrightarrow>
          j \<noteq> parent i \<longrightarrow>
          \<not> cmp (xs[i := xs ! parent i, parent i := xs ! i] ! parent j)
               (xs[i := xs ! parent i, parent i := xs ! i] ! j)"
          using A by (simp add: ys_def p_def)
        show "\<forall>j. 0 < j \<longrightarrow> j < length (xs[i := xs ! parent i, parent i := xs ! i]) \<longrightarrow>
          parent j = parent i \<longrightarrow> 0 < parent i \<longrightarrow>
          \<not> cmp (xs[i := xs ! parent i, parent i := xs ! i] ! parent (parent i))
               (xs[i := xs ! parent i, parent i := xs ! i] ! j)"
          using B by (simp add: ys_def p_def)
      qed
      with False c show ?thesis
        by (simp add: sift_up_step p_def ys_def)
    qed
  qed
qed

lemma is_heap_pq_push:
  assumes "strict_weak_on S cmp" "set xs \<subseteq> S" "x \<in> S" "is_heap cmp xs"
  shows "is_heap cmp (pq_push cmp xs x)"
  unfolding pq_push_def
proof (rule sift_up_heap [OF assms(1)])
  show "set (xs @ [x]) \<subseteq> S" using assms by simp
  show "length xs < length (xs @ [x])" by simp
  show "\<forall>j. 0 < j \<longrightarrow> j < length (xs @ [x]) \<longrightarrow> j \<noteq> length xs \<longrightarrow>
          \<not> cmp ((xs @ [x]) ! parent j) ((xs @ [x]) ! j)"
  proof (intro allI impI)
    fix j assume j: "0 < j" "j < length (xs @ [x])" "j \<noteq> length xs"
    then have "j < length xs" "parent j < length xs"
      using parent_less [of j] by simp_all
    with assms(4) j(1) show "\<not> cmp ((xs @ [x]) ! parent j) ((xs @ [x]) ! j)"
      by (simp add: is_heap_iff nth_append)
  qed
  show "\<forall>j. 0 < j \<longrightarrow> j < length (xs @ [x]) \<longrightarrow> parent j = length xs \<longrightarrow> 0 < length xs \<longrightarrow>
          \<not> cmp ((xs @ [x]) ! parent (length xs)) ((xs @ [x]) ! j)"
  proof (intro allI impI)
    fix j assume j: "0 < j" "j < length (xs @ [x])" "parent j = length xs"
    with parent_less [of j] have False by simp
    then show "\<not> cmp ((xs @ [x]) ! parent (length xs)) ((xs @ [x]) ! j)" ..
  qed
qed


lemma sift_down_heap:
  "strict_weak_on S cmp \<Longrightarrow> set xs \<subseteq> S \<Longrightarrow>
    (\<forall>j. 0 < j \<longrightarrow> j < length xs \<longrightarrow> parent j \<noteq> i \<longrightarrow> \<not> cmp (xs ! parent j) (xs ! j)) \<Longrightarrow>
    (\<forall>j. 0 < j \<longrightarrow> j < length xs \<longrightarrow> parent j = i \<longrightarrow> 0 < i \<longrightarrow>
         \<not> cmp (xs ! parent i) (xs ! j)) \<Longrightarrow>
    is_heap cmp (sift_down cmp xs i)"
proof (induction cmp xs i rule: sift_down.induct)
  case (1 cmp xs i)
  note so = "1.prems"(1) and subS = "1.prems"(2) and edges = "1.prems"(3)
    and grand = "1.prems"(4)
  have inS: "xs ! k \<in> S" if "k < length xs" for k
    using that subS by (auto simp: subset_eq)
  define c where "c = larger_child cmp xs i"
  show ?case
  proof (cases "2 * i + 1 < length xs")
    case False
    have "is_heap cmp xs"
      unfolding is_heap_iff
    proof (intro allI impI)
      fix j assume j: "0 < j" "j < length xs"
      with False have "parent j \<noteq> i" by (auto simp: parent_child)
      with edges j show "\<not> cmp (xs ! parent j) (xs ! j)" by simp
    qed
    with False show ?thesis by (simp add: sift_down_stop)
  next
    case True
    have cl: "c < length xs" and ic: "i < c" and il: "i < length xs"
      using larger_child_bounds [OF True, of cmp] by (simp_all add: c_def)
    have pc: "parent c = i"
      by (simp add: c_def larger_child_def parent_def)
    have sibling: "\<not> cmp (xs ! c) (xs ! j)"
      if "0 < j" "j < length xs" "parent j = i" "j \<noteq> c" for j
    proof (cases "c = 2 * i + 2")
      case True
      then have "cmp (xs ! (2 * i + 1)) (xs ! (2 * i + 2))" "2 * i + 2 < length xs"
        by (auto simp: c_def larger_child_def split: if_splits)
      moreover from that True have "j = 2 * i + 1" by (auto simp: parent_child)
      ultimately show ?thesis
        using strict_weak_asym [OF so inS inS, of "2 * i + 1" "2 * i + 2"] True by simp
    next
      case False
      then have c1: "c = 2 * i + 1"
        and nr: "\<not> (2 * i + 2 < length xs \<and> cmp (xs ! (2 * i + 1)) (xs ! (2 * i + 2)))"
        by (auto simp: c_def larger_child_def split: if_splits)
      from that c1 have "j = 2 * i + 2" by (auto simp: parent_child)
      with nr that c1 show ?thesis by simp
    qed
    show ?thesis
    proof (cases "cmp (xs ! i) (xs ! c)")
      case nc: False
      have "is_heap cmp xs"
        unfolding is_heap_iff
      proof (intro allI impI)
        fix j assume j: "0 < j" "j < length xs"
        show "\<not> cmp (xs ! parent j) (xs ! j)"
        proof (cases "parent j = i")
          case False
          with edges j show ?thesis by simp
        next
          case pj: True
          show ?thesis
          proof (cases "j = c")
            case True
            with nc pj show ?thesis by simp
          next
            case False
            from sibling [OF j pj False] nc
            show ?thesis
              using strict_weak_negtrans [OF so inS [OF il] inS [OF cl] inS [OF j(2)]] pj
              by simp
          qed
        qed
      qed
      with nc show ?thesis by (simp add: sift_down_stop c_def)
    next
      case sw: True
      define ys where "ys = xs[i := xs ! c, c := xs ! i]"
      have ysn: "ys ! k = (if k = c then xs ! i else if k = i then xs ! c else xs ! k)"
        if "k < length xs" for k
        unfolding ys_def using that cl il by (simp add: nth_swap)
      have len: "length ys = length xs" by (simp add: ys_def)
      have sub: "set ys \<subseteq> S"
        using subS il cl unfolding ys_def by (simp add: set_swap_list)
      have A: "\<forall>j. 0 < j \<longrightarrow> j < length ys \<longrightarrow> parent j \<noteq> c \<longrightarrow>
                 \<not> cmp (ys ! parent j) (ys ! j)"
      proof (intro allI impI)
        fix j assume j: "0 < j" "j < length ys" "parent j \<noteq> c"
        then have jl: "j < length xs" and pjl: "parent j < length xs" and pjj: "parent j < j"
          using parent_less [of j] by (simp_all add: len)
        show "\<not> cmp (ys ! parent j) (ys ! j)"
        proof (cases "j = c")
          case True
          then have "ys ! j = xs ! i" "ys ! parent j = xs ! c"
            using ysn [OF jl] ysn [OF il] ic pc by simp_all
          then show ?thesis
            using strict_weak_asym [OF so inS [OF il] inS [OF cl] sw] by simp
        next
          case jc: False
          show ?thesis
          proof (cases "j = i")
            case True
            then have "ys ! j = xs ! c" using ysn [OF jl] ic by simp
            moreover have "ys ! parent j = xs ! parent i"
              using ysn [OF pjl] pjj ic True by simp
            moreover have "\<not> cmp (xs ! parent i) (xs ! c)"
              using grand cl ic pc j(1) True by simp
            ultimately show ?thesis by simp
          next
            case ji: False
            then have yj: "ys ! j = xs ! j" using ysn [OF jl] jc by simp
            show ?thesis
            proof (cases "parent j = i")
              case True
              then have "ys ! parent j = xs ! c" using ysn [OF il] ic by simp
              with yj sibling [OF j(1) jl True jc] show ?thesis by simp
            next
              case False
              then have "ys ! parent j = xs ! parent j" using ysn [OF pjl] j(3) by simp
              with yj edges j(1) jl False show ?thesis by simp
            qed
          qed
        qed
      qed
      have B: "\<forall>j. 0 < j \<longrightarrow> j < length ys \<longrightarrow> parent j = c \<longrightarrow> 0 < c \<longrightarrow>
                 \<not> cmp (ys ! parent c) (ys ! j)"
      proof (intro allI impI)
        fix j assume j: "0 < j" "j < length ys" "parent j = c" "0 < c"
        then have jl: "j < length xs" and cj: "c < j"
          using parent_less [of j] by (simp_all add: len)
        have "ys ! parent c = xs ! c" using ysn [OF il] ic pc by simp
        moreover have "ys ! j = xs ! j" using ysn [OF jl] cj ic by simp
        moreover have "\<not> cmp (xs ! c) (xs ! j)"
          using edges j(1,3) jl ic by auto
        ultimately show "\<not> cmp (ys ! parent c) (ys ! j)" by simp
      qed
      have "is_heap cmp (sift_down cmp ys c)"
        unfolding ys_def c_def
      proof (rule "1.IH")
        show "2 * i + 1 < length xs \<and> cmp (xs ! i) (xs ! larger_child cmp xs i)"
          using True sw by (simp add: c_def)
        show "strict_weak_on S cmp" by (rule so)
        show "set (xs[i := xs ! larger_child cmp xs i, larger_child cmp xs i := xs ! i]) \<subseteq> S"
          using sub by (simp add: ys_def c_def)
        show "\<forall>j. 0 < j \<longrightarrow>
          j < length (xs[i := xs ! larger_child cmp xs i, larger_child cmp xs i := xs ! i]) \<longrightarrow>
          parent j \<noteq> larger_child cmp xs i \<longrightarrow>
          \<not> cmp (xs[i := xs ! larger_child cmp xs i, larger_child cmp xs i := xs ! i] ! parent j)
               (xs[i := xs ! larger_child cmp xs i, larger_child cmp xs i := xs ! i] ! j)"
          using A by (simp add: ys_def c_def)
        show "\<forall>j. 0 < j \<longrightarrow>
          j < length (xs[i := xs ! larger_child cmp xs i, larger_child cmp xs i := xs ! i]) \<longrightarrow>
          parent j = larger_child cmp xs i \<longrightarrow> 0 < larger_child cmp xs i \<longrightarrow>
          \<not> cmp (xs[i := xs ! larger_child cmp xs i, larger_child cmp xs i := xs ! i]
                  ! parent (larger_child cmp xs i))
               (xs[i := xs ! larger_child cmp xs i, larger_child cmp xs i := xs ! i] ! j)"
          using B by (simp add: ys_def c_def)
      qed
      with True sw show ?thesis
        by (simp add: sift_down_step c_def ys_def)
    qed
  qed
qed

lemma is_heap_pq_pop:
  assumes so: "strict_weak_on S cmp" and sub: "set (p # ps) \<subseteq> S" and h: "is_heap cmp (p # ps)"
  shows "is_heap cmp (pq_pop cmp p ps)"
proof (cases "ps = []")
  case True
  then show ?thesis by (simp add: pq_pop_def is_heap_def)
next
  case False
  define zs where "zs = last ps # butlast ps"
  have len: "length zs = length ps" using False by (simp add: zs_def)
  have zn: "zs ! k = (p # ps) ! k" if "0 < k" "k < length ps" for k
    using that by (cases k) (simp_all add: zs_def nth_butlast)
  have "is_heap cmp (sift_down cmp zs 0)"
  proof (rule sift_down_heap [OF so])
    have "set zs = set (butlast ps @ [last ps])" by (auto simp: zs_def)
    with False sub show "set zs \<subseteq> S" by (simp del: set_append)
    show "\<forall>j. 0 < j \<longrightarrow> j < length zs \<longrightarrow> parent j \<noteq> 0 \<longrightarrow> \<not> cmp (zs ! parent j) (zs ! j)"
    proof (intro allI impI)
      fix j assume j: "0 < j" "j < length zs" "parent j \<noteq> 0"
      then have "zs ! j = (p # ps) ! j" "zs ! parent j = (p # ps) ! parent j"
        using parent_less [of j] by (simp_all add: zn len)
      moreover have "\<not> cmp ((p # ps) ! parent j) ((p # ps) ! j)"
        using h j(1,2) unfolding is_heap_iff by (simp add: len)
      ultimately show "\<not> cmp (zs ! parent j) (zs ! j)" by simp
    qed
    show "\<forall>j. 0 < j \<longrightarrow> j < length zs \<longrightarrow> parent j = 0 \<longrightarrow> 0 < (0::nat) \<longrightarrow>
            \<not> cmp (zs ! parent 0) (zs ! j)"
      by simp
  qed
  with False show ?thesis by (simp add: pq_pop_def zs_def)
qed

lemma heap_top_max:
  assumes so: "strict_weak_on S cmp" and sub: "set xs \<subseteq> S" and h: "is_heap cmp xs"
  shows "k < length xs \<Longrightarrow> \<not> cmp (xs ! 0) (xs ! k)"
proof (induction k rule: less_induct)
  case (less k)
  have inS: "xs ! j \<in> S" if "j < length xs" for j
    using that sub by (auto simp: subset_eq)
  show ?case
  proof (cases "k = 0")
    case True
    with less.prems show ?thesis
      using strict_weak_irrefl [OF so inS [of 0]] by simp
  next
    case False
    then have pk: "parent k < k" by (simp add: parent_less)
    with less.prems have pl: "parent k < length xs" by simp
    have "\<not> cmp (xs ! 0) (xs ! parent k)" using less.IH [OF pk pl] .
    moreover have "\<not> cmp (xs ! parent k) (xs ! k)"
      using h False less.prems unfolding is_heap_iff by simp
    moreover have "0 < length xs" using less.prems by (cases xs) simp_all
    ultimately show ?thesis
      using strict_weak_negtrans [OF so inS [of 0] inS [OF pl] inS [OF less.prems]]
      by blast
  qed
qed

lemma heap_top_max_Cons:
  assumes "strict_weak_on S cmp" "set (p # ps) \<subseteq> S" "is_heap cmp (p # ps)" "q \<in> set (p # ps)"
  shows "\<not> cmp p q"
proof -
  from assms(4) obtain k where "k < length (p # ps)" "(p # ps) ! k = q"
    by (meson in_set_conv_nth)
  with heap_top_max [OF assms(1-3), of k] show ?thesis by simp
qed

text \<open>On orders whose prices are not NaN both comparators are strict weak orders, they
  read nothing but the price and the order id, and among equal prices they put the larger
  order id below.\<close>

lemma resting_cmp_props:
  assumes "price a \<noteq> NaN" "price b \<noteq> NaN" "price c \<noteq> NaN"
  shows "\<not> resting_cmp s a a"
    and "resting_cmp s a b \<Longrightarrow> resting_cmp s b c \<Longrightarrow> resting_cmp s a c"
    and "\<not> resting_cmp s a b \<Longrightarrow> \<not> resting_cmp s b c \<Longrightarrow> \<not> resting_cmp s a c"
  using assms
  by (cases s; cases "price a"; cases "price b"; cases "price c";
      auto simp: resting_cmp_def BuyOrderComparator_def SellOrderComparator_def
        split: if_splits)+

lemma resting_cmp_strict_weak:
  "strict_weak_on {p. price (deref m p) \<noteq> NaN} (ptr_cmp m (resting_cmp s))"
  unfolding strict_weak_on_def ptr_cmp_def
  using resting_cmp_props by blast

lemma resting_cmp_tie:
  assumes "price a = price b" "price a \<noteq> NaN"
  shows "resting_cmp s a b \<longleftrightarrow> order_id a > order_id b"
proof -
  from assms(2) obtain x where "price a = Fin x"
    using double.exhaust by blast
  with assms(1) have "price a = Fin x" "price b = Fin x"
    by simp_all
  then show ?thesis
    by (cases s) (simp_all add: resting_cmp_def BuyOrderComparator_def SellOrderComparator_def)
qed

lemma resting_cmp_fields:
  "price a' = price a \<Longrightarrow> order_id a' = order_id a \<Longrightarrow> price b' = price b \<Longrightarrow>
   order_id b' = order_id b \<Longrightarrow> resting_cmp s a' b' = resting_cmp s a b"
  by (cases s) (simp_all add: resting_cmp_def BuyOrderComparator_def SellOrderComparator_def)

lemma ptr_cmp_same_fields:
  assumes "\<And>x. price (deref m' x) = price (deref m x) \<and> order_id (deref m' x) = order_id (deref m x)"
  shows "ptr_cmp m' (resting_cmp s) = ptr_cmp m (resting_cmp s)"
proof (intro ext)
  fix x y
  show "ptr_cmp m' (resting_cmp s) x y = ptr_cmp m (resting_cmp s) x y"
    unfolding ptr_cmp_def using assms [of x] assms [of y] by (intro resting_cmp_fields) simp_all
qed

lemma deref_fill:
  "price (deref (m(p \<mapsto> fill (deref m p) q)) x) = price (deref m x) \<and>
   order_id (deref (m(p \<mapsto> fill (deref m p) q)) x) = order_id (deref m x)"
  by (simp add: deref_def)

lemma ptr_cmp_fill:
  "ptr_cmp (m(p \<mapsto> fill (deref m p) q)) (resting_cmp s) = ptr_cmp m (resting_cmp s)"
  by (rule ptr_cmp_same_fields) (rule deref_fill)

text \<open>\<open>queue_ordered m cmp xs\<close>: no order behind a pointer of the queue has a NaN price,
  and the queue is a heap for the comparator.\<close>

definition queue_ordered ::
  "(u64 \<rightharpoonup> Order) \<Rightarrow> (Order \<Rightarrow> Order \<Rightarrow> bool) \<Rightarrow> u64 list \<Rightarrow> bool" where
  "queue_ordered m cmp xs \<longleftrightarrow>
     list_all (\<lambda>p. price (deref m p) \<noteq> NaN) xs \<and> is_heap (ptr_cmp m cmp) xs"

lemma queue_ordered_front:
  assumes "queue_ordered m (resting_cmp s) (p # ps)" "q \<in> set (p # ps)"
  shows "\<not> resting_cmp s (deref m p) (deref m q)"
proof -
  from assms(1) have "set (p # ps) \<subseteq> {p. price (deref m p) \<noteq> NaN}"
    and "is_heap (ptr_cmp m (resting_cmp s)) (p # ps)"
    by (auto simp: queue_ordered_def list_all_iff)
  from heap_top_max_Cons [OF resting_cmp_strict_weak this assms(2)]
  show ?thesis by (simp add: ptr_cmp_def)
qed

lemma queue_ordered_pop:
  assumes "queue_ordered m (resting_cmp s) (p # ps)"
  shows "queue_ordered m (resting_cmp s) (pq_pop (ptr_cmp m (resting_cmp s)) p ps)"
proof -
  from assms have sub: "set (p # ps) \<subseteq> {p. price (deref m p) \<noteq> NaN}"
    and h: "is_heap (ptr_cmp m (resting_cmp s)) (p # ps)"
    by (auto simp: queue_ordered_def list_all_iff)
  from is_heap_pq_pop [OF resting_cmp_strict_weak sub h] sub show ?thesis
    by (auto simp: queue_ordered_def list_all_iff)
qed

lemma queue_ordered_push:
  assumes "queue_ordered m (resting_cmp s) xs" "price (deref m x) \<noteq> NaN"
  shows "queue_ordered m (resting_cmp s) (pq_push (ptr_cmp m (resting_cmp s)) xs x)"
proof -
  from assms have sub: "set xs \<subseteq> {p. price (deref m p) \<noteq> NaN}"
    and h: "is_heap (ptr_cmp m (resting_cmp s)) xs"
    by (auto simp: queue_ordered_def list_all_iff)
  from is_heap_pq_push [OF resting_cmp_strict_weak sub _ h, of x] sub assms(2) show ?thesis
    by (auto simp: queue_ordered_def list_all_iff)
qed

lemma queue_ordered_same_fields:
  assumes "queue_ordered m (resting_cmp s) xs"
    and "\<And>x. price (deref m' x) = price (deref m x) \<and> order_id (deref m' x) = order_id (deref m x)"
  shows "queue_ordered m' (resting_cmp s) xs"
  using assms(1) unfolding queue_ordered_def ptr_cmp_same_fields [OF assms(2)]
  by (simp add: assms(2))

subsection \<open>Time priority along the loop\<close>

text \<open>\<open>fifo_inv s pa pb b\<close>: the queue is ordered, the order behind the pointer \<open>pa\<close> is
  in it, not cancelled, and at the price of the order behind \<open>pb\<close>. While it holds and
  \<open>pa < pb\<close>, the front of the queue is never \<open>pb\<close>, and an iteration keeps it unless it
  matches \<open>pa\<close>.\<close>

definition fifo_inv :: "Side \<Rightarrow> u64 \<Rightarrow> u64 \<Rightarrow> OrderBook \<Rightarrow> bool" where
  "fifo_inv s pa pb b \<longleftrightarrow>
     ptrs_valid b \<and> queue_ordered (orders b) (resting_cmp s) (resting_queue s b) \<and>
     pa \<in> set (resting_queue s b) \<and>
     status (deref (orders b) pa) \<noteq> CANCELLED \<and>
     price (deref (orders b) pa) = price (deref (orders b) pb)"

lemma fifo_top_not_later:
  assumes inv: "fifo_inv s pa pb b" and lt: "pa < pb"
    and q: "resting_queue s b = p # ps"
  shows "p \<noteq> pb"
proof
  assume top: "p = pb"
  have b_in: "pb \<in> set (resting_queue s b)"
    using q top by simp
  from inv have v: "ptrs_valid b" and a_in: "pa \<in> set (resting_queue s b)"
    and ord: "queue_ordered (orders b) (resting_cmp s) (p # ps)"
    by (simp_all add: fifo_inv_def q)
  from ptrs_valid_resting [OF v b_in]
  have idb: "order_id (deref (orders b) pb) = pb" by simp
  from ptrs_valid_resting [OF v a_in]
  have ida: "order_id (deref (orders b) pa) = pa" by simp
  from a_in q have "pa \<in> set (p # ps)" by simp
  from queue_ordered_front [OF ord this] top
  have "\<not> resting_cmp s (deref (orders b) pb) (deref (orders b) pa)" by simp
  moreover from inv have "price (deref (orders b) pb) = price (deref (orders b) pa)"
    by (simp add: fifo_inv_def)
  moreover from ord b_in q have "price (deref (orders b) pb) \<noteq> NaN"
    by (auto simp: queue_ordered_def list_all_iff)
  ultimately show False
    using lt ida idb by (simp add: resting_cmp_tie)
qed

lemma fifo_inv_Skip:
  assumes inv: "fifo_inv s pa pb b" and it: "match_iteration s b inc = Skip b'"
  shows "fifo_inv s pa pb b'"
proof -
  from it obtain p ps where q: "resting_queue s b = p # ps"
    and c: "status (deref (orders b) p) = CANCELLED"
    and b': "b' = pop_resting s p ps b"
    by (rule match_iteration_Skip)
  from inv c have ne: "p \<noteq> pa"
    by (auto simp: fifo_inv_def)
  have q': "resting_queue s b' = pq_pop (ptr_cmp (orders b) (resting_cmp s)) p ps"
    unfolding b' by (rule resting_queue_pop_resting)
  from inv q ne have "pa \<in> set (resting_queue s b')"
    by (simp add: fifo_inv_def q')
  moreover have o: "orders b' = orders b" by (simp add: b')
  moreover from inv q have "ptrs_valid b'"
    unfolding b' by (simp add: fifo_inv_def ptrs_valid_pop_resting)
  moreover from inv q have "queue_ordered (orders b') (resting_cmp s) (resting_queue s b')"
    unfolding q' o by (simp add: fifo_inv_def queue_ordered_pop)
  ultimately show ?thesis
    using inv by (simp add: fifo_inv_def)
qed

lemma fifo_inv_Match:
  assumes inv: "fifo_inv s pa pb b" and lt: "pa < pb"
    and it: "match_iteration s b inc = Match b' inc' t"
  shows "maker_order_id t \<noteq> pb \<and> (maker_order_id t = pa \<or> fifo_inv s pa pb b')"
proof -
  from it obtain p ps top_order q b1 where m: "resting_queue s b = p # ps"
    "0 < remaining_quantity inc"
    "top_order = deref (orders b) p"
    "status top_order \<noteq> CANCELLED" "\<not> no_cross s inc top_order"
    "q = min (remaining_quantity inc) (remaining_quantity top_order)"
    "b1 = b\<lparr>orders := (orders b)(p \<mapsto> fill top_order q),
             next_trade_id := next_trade_id b + 1\<rparr>"
    "b' = (if is_filled (fill top_order q) then pop_resting s p ps b1 else b1)"
    "inc' = fill inc q" "t = make_trade b inc top_order q"
    by (rule match_iteration_Match)
  have top_in: "p \<in> set (resting_queue s b)"
    using m(1) by simp
  from inv have v: "ptrs_valid b" by (simp add: fifo_inv_def)
  from ptrs_valid_resting [OF v top_in] have "order_id top_order = p"
    by (simp add: m(3))
  then have maker: "maker_order_id t = p"
    by (simp add: m(10) make_trade_def)
  have nb: "p \<noteq> pb"
    using inv lt m(1) by (rule fifo_top_not_later)
  have "fifo_inv s pa pb b'" if na: "p \<noteq> pa"
  proof -
    have o1: "orders b1 = (orders b)(p \<mapsto> fill (deref (orders b) p) q)"
      by (simp add: m(3,7))
    have q1: "resting_queue s b1 = p # ps"
      using m(1) by (cases s) (simp_all add: m(7) resting_queue_def)
    from inv have "queue_ordered (orders b) (resting_cmp s) (p # ps)"
      by (simp add: fifo_inv_def m(1))
    then have ord1: "queue_ordered (orders b1) (resting_cmp s) (p # ps)"
      unfolding o1 by (rule queue_ordered_same_fields) (rule deref_fill)
    have q': "resting_queue s b' = p # ps \<or>
        resting_queue s b' = pq_pop (ptr_cmp (orders b1) (resting_cmp s)) p ps"
      by (simp add: m(8) q1 resting_queue_pop_resting)
    have o': "orders b' = orders b1"
      by (simp add: m(8))
    from it v have "ptrs_valid b'"
      by (rule ptrs_valid_iteration(2) [rotated])
    moreover from q' ord1 have "queue_ordered (orders b') (resting_cmp s) (resting_queue s b')"
      unfolding o' by (auto simp: queue_ordered_pop)
    moreover from inv na m(1) q' have "pa \<in> set (resting_queue s b')"
      by (auto simp: fifo_inv_def)
    moreover from inv na have "status (deref (orders b') pa) \<noteq> CANCELLED"
      by (simp add: o' o1 fifo_inv_def deref_def)
    moreover from inv have "price (deref (orders b') pa) = price (deref (orders b') pb)"
      unfolding o' o1 by (simp add: deref_fill fifo_inv_def)
    ultimately show ?thesis
      by (simp add: fifo_inv_def)
  qed
  with maker nb show ?thesis by auto
qed

lemma fifo_core:
  assumes lt: "pa < pb"
  shows "fifo_inv s pa pb b \<longrightarrow>
         (\<forall>pre t post. fst (match_side s b inc []) = pre @ t # post \<longrightarrow>
            maker_order_id t = pb \<longrightarrow> pa \<in> maker_order_id ` set pre)"
proof (rule match_side_induct [where s = s and ts = "[]" and
      P = "\<lambda>b inc ts. fifo_inv s pa pb b \<longrightarrow>
         (\<forall>pre t post. fst (match_side s b inc []) = pre @ t # post \<longrightarrow>
            maker_order_id t = pb \<longrightarrow> pa \<in> maker_order_id ` set pre)"])
  fix b inc and ts :: "Trade list"
  assume "match_iteration s b inc = Exit"
  then have "fst (match_side s b inc []) = []"
    by (simp add: match_side_Exit)
  then show "fifo_inv s pa pb b \<longrightarrow>
         (\<forall>pre t post. fst (match_side s b inc []) = pre @ t # post \<longrightarrow>
            maker_order_id t = pb \<longrightarrow> pa \<in> maker_order_id ` set pre)"
    by simp
next
  fix b inc b' and ts :: "Trade list"
  assume it: "match_iteration s b inc = Skip b'"
    and IH: "fifo_inv s pa pb b' \<longrightarrow>
         (\<forall>pre t post. fst (match_side s b' inc []) = pre @ t # post \<longrightarrow>
            maker_order_id t = pb \<longrightarrow> pa \<in> maker_order_id ` set pre)"
  from it have step: "match_side s b inc [] = match_side s b' inc []"
    by (rule match_side_Skip)
  show "fifo_inv s pa pb b \<longrightarrow>
         (\<forall>pre t post. fst (match_side s b inc []) = pre @ t # post \<longrightarrow>
            maker_order_id t = pb \<longrightarrow> pa \<in> maker_order_id ` set pre)"
    unfolding step using IH fifo_inv_Skip [OF _ it] by blast
next
  fix b inc b' inc' t0 and ts :: "Trade list"
  assume it: "match_iteration s b inc = Match b' inc' t0"
    and IH: "fifo_inv s pa pb b' \<longrightarrow>
         (\<forall>pre t post. fst (match_side s b' inc' []) = pre @ t # post \<longrightarrow>
            maker_order_id t = pb \<longrightarrow> pa \<in> maker_order_id ` set pre)"
  from it have step: "fst (match_side s b inc []) = t0 # fst (match_side s b' inc' [])"
    by (rule new_trades_Match)
  show "fifo_inv s pa pb b \<longrightarrow>
         (\<forall>pre t post. fst (match_side s b inc []) = pre @ t # post \<longrightarrow>
            maker_order_id t = pb \<longrightarrow> pa \<in> maker_order_id ` set pre)"
  proof (intro impI allI)
    fix pre t post
    assume inv: "fifo_inv s pa pb b"
      and split: "fst (match_side s b inc []) = pre @ t # post"
      and mk: "maker_order_id t = pb"
    from fifo_inv_Match [OF inv lt it]
    have t0: "maker_order_id t0 \<noteq> pb" and alt: "maker_order_id t0 = pa \<or> fifo_inv s pa pb b'"
      by simp_all
    show "pa \<in> maker_order_id ` set pre"
    proof (cases pre)
      case Nil
      with split step mk t0 show ?thesis by simp
    next
      case (Cons x pre')
      with split step have x: "x = t0" and rest: "fst (match_side s b' inc' []) = pre' @ t # post"
        by simp_all
      from alt show ?thesis
      proof
        assume "maker_order_id t0 = pa"
        with Cons x show ?thesis by force
      next
        assume "fifo_inv s pa pb b'"
        with IH rest mk have "pa \<in> maker_order_id ` set pre'" by blast
        with Cons show ?thesis by auto
      qed
    qed
  qed
qed

subsection \<open>Ordered queues in the books of an engine\<close>

text \<open>\<open>book_ordered b\<close>: both queues of the book are ordered. Every operation of the book
  keeps this, as long as an order that is added has a price that is not NaN and an id that
  no pointer of the book carries. The engine takes the ids from its counter, so the books
  that a sequence of fewer than \<open>2^64 - 1\<close> requests builds are ordered when no price
  among the requests is NaN (\<open>book_ordered_run\<close>).\<close>

definition book_ordered :: "OrderBook \<Rightarrow> bool" where
  "book_ordered b \<longleftrightarrow>
     queue_ordered (orders b) BuyOrderComparator (bids b) \<and>
     queue_ordered (orders b) SellOrderComparator (asks b)"

lemma book_ordered_iff:
  "book_ordered b \<longleftrightarrow> (\<forall>s. queue_ordered (orders b) (resting_cmp s) (resting_queue s b))"
proof
  assume "book_ordered b"
  then show "\<forall>s. queue_ordered (orders b) (resting_cmp s) (resting_queue s b)"
    by (auto simp: book_ordered_def resting_cmp_def resting_queue_def split: Side.splits)
next
  assume a: "\<forall>s. queue_ordered (orders b) (resting_cmp s) (resting_queue s b)"
  from a [rule_format, of SELL] a [rule_format, of BUY] show "book_ordered b"
    by (simp add: book_ordered_def resting_cmp_def resting_queue_def)
qed

lemma book_ordered_same_fields:
  assumes "book_ordered b" "bids b' = bids b" "asks b' = asks b"
    and "\<And>x. price (deref (orders b') x) = price (deref (orders b) x) \<and>
             order_id (deref (orders b') x) = order_id (deref (orders b) x)"
  shows "book_ordered b'"
  unfolding book_ordered_iff
proof
  fix s
  from assms(1) have "queue_ordered (orders b) (resting_cmp s) (resting_queue s b)"
    by (simp add: book_ordered_iff)
  then have "queue_ordered (orders b') (resting_cmp s) (resting_queue s b)"
    using assms(4) by (rule queue_ordered_same_fields)
  moreover have "resting_queue s b' = resting_queue s b"
    using assms(2,3) by (cases s) (simp_all add: resting_queue_def)
  ultimately show "queue_ordered (orders b') (resting_cmp s) (resting_queue s b')"
    by simp
qed

lemma book_ordered_pop_resting:
  assumes "book_ordered b" "resting_queue s b = p # ps"
  shows "book_ordered (pop_resting s p ps b)"
  unfolding book_ordered_iff
proof
  fix s'
  from assms(1) have o: "queue_ordered (orders b) (resting_cmp s') (resting_queue s' b)"
    by (simp add: book_ordered_iff)
  show "queue_ordered (orders (pop_resting s p ps b)) (resting_cmp s')
          (resting_queue s' (pop_resting s p ps b))"
  proof (cases "s' = s")
    case True
    with o assms(2) show ?thesis
      by (simp add: resting_queue_pop_resting queue_ordered_pop)
  next
    case False
    then have "resting_queue s' (pop_resting s p ps b) = resting_queue s' b"
      by (cases s; cases s') (simp_all add: resting_queue_def pop_resting_def)
    with o show ?thesis by simp
  qed
qed

lemma book_ordered_iteration:
  assumes "book_ordered b"
  shows "match_iteration s b inc = Skip b' \<Longrightarrow> book_ordered b'"
    and "match_iteration s b inc = Match b' inc' t \<Longrightarrow> book_ordered b'"
proof -
  assume "match_iteration s b inc = Skip b'"
  then obtain p ps where "resting_queue s b = p # ps" "b' = pop_resting s p ps b"
    by (rule match_iteration_Skip)
  with assms show "book_ordered b'"
    by (simp add: book_ordered_pop_resting)
next
  assume "match_iteration s b inc = Match b' inc' t"
  then obtain p ps top_order q b1 where m: "resting_queue s b = p # ps"
    "top_order = deref (orders b) p"
    "b1 = b\<lparr>orders := (orders b)(p \<mapsto> fill top_order q),
             next_trade_id := next_trade_id b + 1\<rparr>"
    "b' = (if is_filled (fill top_order q) then pop_resting s p ps b1 else b1)"
    by (rule match_iteration_Match)
  have "book_ordered b1"
    using assms by (rule book_ordered_same_fields) (simp_all add: m(2,3) deref_fill)
  moreover have "resting_queue s b1 = p # ps"
    using m(1) by (cases s) (simp_all add: m(3) resting_queue_def)
  ultimately show "book_ordered b'"
    by (simp add: m(4) book_ordered_pop_resting)
qed

lemma book_ordered_match_side:
  "book_ordered b \<Longrightarrow> book_ordered (fst (snd (match_side s b inc ts)))"
proof (induction b inc ts rule: match_side_induct [where s = s])
  case (Exit b inc ts)
  then show ?case by (simp add: match_side_Exit)
next
  case (Skip b inc ts b')
  from Skip.prems Skip.hyps have "book_ordered b'" by (rule book_ordered_iteration(1))
  with Skip show ?case by (simp add: match_side_Skip)
next
  case (Match b inc ts b' inc' t)
  from Match.prems Match.hyps have "book_ordered b'" by (rule book_ordered_iteration(2))
  with Match show ?case by (simp add: match_side_Match)
qed

lemma queues_match_side:
  "set (bids (fst (snd (match_side s b inc ts)))) \<subseteq> set (bids b) \<and>
   set (asks (fst (snd (match_side s b inc ts)))) \<subseteq> set (asks b)"
proof (induction b inc ts rule: match_side_induct [where s = s])
  case (Exit b inc ts)
  then show ?case by (simp add: match_side_Exit)
next
  case (Skip b inc ts b')
  from Skip.hyps have "set (bids b') \<subseteq> set (bids b) \<and> set (asks b') \<subseteq> set (asks b)"
    by (cases s) (auto elim!: match_iteration_Skip simp: pop_resting_def resting_queue_def)
  with Skip.IH show ?case by (auto simp: match_side_Skip [OF Skip.hyps])
next
  case (Match b inc ts b' inc' t)
  from Match.hyps have "set (bids b') \<subseteq> set (bids b) \<and> set (asks b') \<subseteq> set (asks b)"
    by (cases s)
       (auto elim!: match_iteration_Match simp: pop_resting_def resting_queue_def
          split: if_splits)
  with Match.IH show ?case by (auto simp: match_side_Match [OF Match.hyps])
qed

lemma book_ordered_clean_bids: "book_ordered b \<Longrightarrow> book_ordered (clean_bids b)"
proof (induction b rule: clean_bids_induct)
  case (stop b)
  then show ?case by simp
next
  case (step b p ps)
  have "book_ordered (pop_resting SELL p ps b)"
    using step.prems by (rule book_ordered_pop_resting) (simp add: resting_queue_def step.hyps)
  with step.IH show ?case
    by (simp add: clean_bids_step [OF step.hyps] pop_resting_def)
qed

lemma book_ordered_clean_asks: "book_ordered b \<Longrightarrow> book_ordered (clean_asks b)"
proof (induction b rule: clean_asks_induct)
  case (stop b)
  then show ?case by simp
next
  case (step b p ps)
  have "book_ordered (pop_resting BUY p ps b)"
    using step.prems by (rule book_ordered_pop_resting) (simp add: resting_queue_def step.hyps)
  with step.IH show ?case
    by (simp add: clean_asks_step [OF step.hyps] pop_resting_def)
qed

lemma is_heap_cong:
  assumes "\<And>x y. x \<in> set xs \<Longrightarrow> y \<in> set xs \<Longrightarrow> cmp' x y = cmp x y"
  shows "is_heap cmp' xs = is_heap cmp xs"
proof -
  have "cmp' (xs ! parent j) (xs ! j) = cmp (xs ! parent j) (xs ! j)"
    if "0 < j" "j < length xs" for j
    using that parent_less [of j] by (intro assms) simp_all
  then show ?thesis unfolding is_heap_iff by blast
qed

lemma queue_ordered_new_object:
  assumes "queue_ordered m cmp xs" "k \<notin> set xs"
  shows "queue_ordered (m(k \<mapsto> ord)) cmp xs"
proof -
  have d: "deref (m(k \<mapsto> ord)) x = deref m x" if "x \<in> set xs" for x
    using that assms(2) by (auto simp: deref_def)
  have "is_heap (ptr_cmp (m(k \<mapsto> ord)) cmp) xs = is_heap (ptr_cmp m cmp) xs"
    by (rule is_heap_cong) (simp add: ptr_cmp_def d)
  with assms(1) d show ?thesis
    by (simp add: queue_ordered_def list_all_iff)
qed

lemma book_ordered_add_order_unlocked:
  assumes "book_ordered b" "price ord \<noteq> NaN" "order_id ord \<notin> set (bids b) \<union> set (asks b)"
  shows "book_ordered (add_order_unlocked b ord)"
proof -
  let ?m = "(orders b)(order_id ord \<mapsto> ord)"
  from assms(1,3) have ob: "queue_ordered ?m (resting_cmp SELL) (bids b)"
    and oa: "queue_ordered ?m (resting_cmp BUY) (asks b)"
    by (simp_all add: book_ordered_def resting_cmp_def queue_ordered_new_object)
  have p: "price (deref ?m (order_id ord)) \<noteq> NaN"
    using assms(2) by (simp add: deref_def)
  show ?thesis
  proof (cases "is_buy ord")
    case True
    with queue_ordered_push [OF ob p] oa show ?thesis
      by (simp add: book_ordered_def add_order_unlocked_def Let_def resting_cmp_def)
  next
    case False
    with queue_ordered_push [OF oa p] ob show ?thesis
      by (simp add: book_ordered_def add_order_unlocked_def Let_def resting_cmp_def)
  qed
qed

lemma book_ordered_clean_filled_orders:
  "book_ordered b \<Longrightarrow> book_ordered (clean_filled_orders b)"
  by (simp add: clean_filled_orders_def book_ordered_clean_bids book_ordered_clean_asks)

lemma book_ordered_process_order:
  assumes "book_ordered b" "price inc \<noteq> NaN" "order_id inc \<notin> set (bids b) \<union> set (asks b)"
  shows "book_ordered (fst (snd (process_order b inc)))"
proof -
  obtain ts b1 inc1 where m: "match_side (side inc) b inc [] = (ts, b1, inc1)"
    by (cases "match_side (side inc) b inc []") auto
  from book_ordered_match_side [OF assms(1), of "side inc" inc "[]"] m have o1: "book_ordered b1"
    by simp
  from match_side_incoming [of "side inc" b inc "[]"] m
  have inc1: "order_id inc1 = order_id inc" "price inc1 = price inc" by simp_all
  from queues_match_side [of "side inc" b inc "[]"] m assms(3)
  have "order_id inc1 \<notin> set (bids b1) \<union> set (asks b1)"
    by (auto simp: inc1)
  with o1 assms(2) have "book_ordered (add_order_unlocked b1 inc1)"
    by (intro book_ordered_add_order_unlocked) (simp_all add: inc1)
  with o1 show ?thesis
    using m
    by (simp add: process_order_def match_order_side Let_def book_ordered_clean_filled_orders)
qed

lemma queues_process_order:
  "set (bids (fst (snd (process_order b inc)))) \<union> set (asks (fst (snd (process_order b inc))))
     \<subseteq> insert (order_id inc) (set (bids b) \<union> set (asks b))"
proof -
  obtain ts b1 inc1 where m: "match_side (side inc) b inc [] = (ts, b1, inc1)"
    by (cases "match_side (side inc) b inc []") auto
  from match_side_incoming [of "side inc" b inc "[]"] m
  have inc1: "order_id inc1 = order_id inc" by simp
  from queues_match_side [of "side inc" b inc "[]"] m
  have q1: "set (bids b1) \<subseteq> set (bids b)" "set (asks b1) \<subseteq> set (asks b)" by simp_all
  have "set (bids (add_order_unlocked b1 inc1)) \<union> set (asks (add_order_unlocked b1 inc1))
          \<subseteq> insert (order_id inc) (set (bids b1) \<union> set (asks b1))"
    by (auto simp: add_order_unlocked_def Let_def inc1)
  with q1 queues_clean_filled_orders [of b1]
    queues_clean_filled_orders [of "add_order_unlocked b1 inc1"]
  show ?thesis
    using m by (auto simp: process_order_def match_order_side Let_def)
qed

lemma book_ordered_cancel_order:
  assumes "book_ordered b"
  shows "book_ordered (snd (cancel_order b oid))"
proof (cases "orders b oid")
  case None
  with assms show ?thesis by (simp add: cancel_order_def)
next
  case (Some ord)
  from assms show ?thesis
    by (rule book_ordered_same_fields)
       (simp_all add: Some cancel_order_def cancel_def deref_def)
qed

lemma book_ordered_new_OrderBook: "book_ordered (new_OrderBook symb)"
  by (simp add: book_ordered_def queue_ordered_def is_heap_def new_OrderBook_def)

text \<open>\<open>ids_below e\<close>: the counter of the engine has not wrapped beyond the pointers of its
  books.\<close>

definition ids_below :: "MatchingEngine \<Rightarrow> bool" where
  "ids_below e \<longleftrightarrow>
     (\<forall>symb b. order_books e symb = Some b \<longrightarrow>
        (\<forall>p \<in> set (bids b) \<union> set (asks b). p < next_order_id e))"

definition books_ordered :: "MatchingEngine \<Rightarrow> bool" where
  "books_ordered e \<longleftrightarrow> (\<forall>symb b. order_books e symb = Some b \<longrightarrow> book_ordered b)"

fun no_nan_price :: "Request \<Rightarrow> bool" where
  "no_nan_price (Submit client symb s p q stale) = (p \<noteq> NaN)"
| "no_nan_price (Cancel oid) = True"

lemma word_less_inc: "(n::u64) \<noteq> - 1 \<Longrightarrow> x < n \<or> x = n \<Longrightarrow> x < n + 1"
  using inc_less_eq_iff [of n x] by (auto simp: not_le [symmetric])

lemma next_order_id_submit_order:
  "next_order_id (snd (snd (submit_order e client symb s p q stale))) = next_order_id e + 1"
  by (simp add: submit_order_def get_or_create_book_def Let_def
        split: option.splits prod.splits)

lemma submit_order_ordered:
  assumes "books_ordered e" "ids_below e" "p \<noteq> NaN" "next_order_id e \<noteq> - 1"
  shows "books_ordered (snd (snd (submit_order e client symb s p q stale))) \<and>
         ids_below (snd (snd (submit_order e client symb s p q stale)))"
proof -
  let ?e' = "snd (snd (submit_order e client symb s p q stale))"
  define b0 where "b0 = (case order_books e symb of Some book \<Rightarrow> book
                          | None \<Rightarrow> new_OrderBook symb)"
  define inc where "inc = new_Order (next_order_id e) client symb s p q"
  have b0: "book_ordered b0"
    using assms(1)
    by (cases "order_books e symb")
       (simp_all add: b0_def books_ordered_def book_ordered_new_OrderBook)
  have b0': "x < next_order_id e" if "x \<in> set (bids b0) \<union> set (asks b0)" for x
  proof (cases "order_books e symb")
    case None
    with that show ?thesis by (simp add: b0_def new_OrderBook_def)
  next
    case (Some book)
    with that assms(2) show ?thesis
      unfolding ids_below_def b0_def by auto
  qed
  have inc: "price inc \<noteq> NaN" "order_id inc = next_order_id e"
    using assms(3) by (simp_all add: inc_def new_Order_def)
  have fresh: "order_id inc \<notin> set (bids b0) \<union> set (asks b0)"
    using b0' [of "order_id inc"] inc(2) by auto
  have book: "order_books ?e' symb = Some (fst (snd (process_order b0 inc)))"
    by (simp add: submit_order_book b0_def inc_def)
  have other: "order_books ?e' symb' = order_books e symb'" if "symb' \<noteq> symb" for symb'
    using that by (simp add: submit_order_other_book)
  have nxt: "next_order_id ?e' = next_order_id e + 1"
    by (rule next_order_id_submit_order)
  note step = word_less_inc [OF assms(4)]
  have o1: "book_ordered (fst (snd (process_order b0 inc)))"
    using b0 inc(1) fresh by (rule book_ordered_process_order)
  have o: "books_ordered ?e'"
    unfolding books_ordered_def
  proof (intro allI impI)
    fix symb' b assume h: "order_books ?e' symb' = Some b"
    show "book_ordered b"
    proof (cases "symb' = symb")
      case True
      with h book o1 show ?thesis by simp
    next
      case False
      with h other assms(1) show ?thesis by (simp add: books_ordered_def)
    qed
  qed
  have i1: "x < next_order_id e + 1"
    if "x \<in> set (bids (fst (snd (process_order b0 inc)))) \<union>
            set (asks (fst (snd (process_order b0 inc))))" for x
  proof -
    from that queues_process_order [of b0 inc]
    have "x = order_id inc \<or> x \<in> set (bids b0) \<union> set (asks b0)" by blast
    with b0' inc(2) show ?thesis by (intro step) auto
  qed
  have "ids_below ?e'"
    unfolding ids_below_def nxt
  proof (intro allI impI ballI)
    fix symb' b x assume h: "order_books ?e' symb' = Some b" "x \<in> set (bids b) \<union> set (asks b)"
    show "x < next_order_id e + 1"
    proof (cases "symb' = symb")
      case True
      with h book i1 show ?thesis by simp
    next
      case False
      with h other assms(2) have "x < next_order_id e"
        unfolding ids_below_def by auto
      then show ?thesis by (intro step) simp
    qed
  qed
  with o show ?thesis by simp
qed

lemma engine_cancel_order_ordered:
  assumes "books_ordered e" "ids_below e"
  shows "books_ordered (snd (engine_cancel_order e oid)) \<and>
         ids_below (snd (engine_cancel_order e oid))"
proof -
  let ?e' = "snd (engine_cancel_order e oid)"
  have nxt: "next_order_id ?e' = next_order_id e"
    by (simp add: engine_cancel_order_def Let_def split: option.splits prod.splits)
  have "book_ordered b \<and> (\<forall>x \<in> set (bids b) \<union> set (asks b). x < next_order_id e)"
    if h: "order_books ?e' symb = Some b" for symb b
  proof -
    from engine_cancel_order_book [OF h]
    obtain book where book: "order_books e symb = Some book"
      and b: "b = book \<or> b = snd (cancel_order book oid)"
      by blast
    from book assms have "book_ordered book"
      "\<forall>x \<in> set (bids book) \<union> set (asks book). x < next_order_id e"
      by (auto simp: books_ordered_def ids_below_def)
    moreover have "bids (snd (cancel_order book oid)) = bids book"
      "asks (snd (cancel_order book oid)) = asks book"
      by (simp_all add: cancel_order_def split: option.splits)
    ultimately show ?thesis
      using b book_ordered_cancel_order [of book oid] by auto
  qed
  then show ?thesis
    unfolding books_ordered_def ids_below_def nxt by blast
qed

lemma foldl_ordered:
  "books_ordered e \<Longrightarrow> ids_below e \<Longrightarrow> list_all no_nan_price reqs \<Longrightarrow>
   unat (next_order_id e) + length reqs < 2 ^ 64 \<Longrightarrow>
   books_ordered (foldl apply_request e reqs)"
proof (induction reqs arbitrary: e)
  case Nil
  then show ?case by simp
next
  case (Cons r reqs)
  show ?case
  proof (cases r)
    case (Submit client symb s p q stale)
    have ne: "next_order_id e \<noteq> - 1"
    proof
      assume "next_order_id e = - 1"
      then have "unat (next_order_id e) = 2 ^ 64 - 1"
        by (simp add: unsigned_minus_1_eq_mask mask_eq_exp_minus_1)
      with Cons.prems(4) show False by simp
    qed
    from Cons.prems(3) Submit have p: "p \<noteq> NaN" by simp
    let ?e' = "snd (snd (submit_order e client symb s p q stale))"
    from submit_order_ordered [OF Cons.prems(1,2) p ne]
    have o: "books_ordered ?e'" "ids_below ?e'" by simp_all
    have "next_order_id ?e' = next_order_id e + 1"
      by (rule next_order_id_submit_order)
    moreover have "unat (next_order_id e + 1) = unat (next_order_id e) + 1"
      using Cons.prems(4) unat_add_lem [of "next_order_id e" 1] by simp
    ultimately have "unat (next_order_id ?e') + length reqs < 2 ^ 64"
      using Cons.prems(4) by simp
    from Cons.IH [OF o _ this] Cons.prems(3) Submit show ?thesis by simp
  next
    case (Cancel oid)
    let ?e' = "snd (engine_cancel_order e oid)"
    from engine_cancel_order_ordered [OF Cons.prems(1,2)]
    have o: "books_ordered ?e'" "ids_below ?e'" by simp_all
    have "next_order_id ?e' = next_order_id e"
      by (simp add: engine_cancel_order_def Let_def split: option.splits prod.splits)
    with Cons.prems(4) have "unat (next_order_id ?e') + length reqs < 2 ^ 64" by simp
    from Cons.IH [OF o _ this] Cons.prems(3) Cancel show ?thesis by simp
  qed
qed

lemma book_ordered_run:
  assumes "list_all no_nan_price reqs" "length reqs < 2 ^ 64 - 1"
    "order_books (run reqs) symb = Some b"
  shows "book_ordered b"
proof -
  have "books_ordered (run reqs)"
    unfolding run_def
  proof (rule foldl_ordered [OF _ _ assms(1)])
    show "books_ordered new_MatchingEngine"
      by (simp add: books_ordered_def new_MatchingEngine_def)
    show "ids_below new_MatchingEngine"
      by (simp add: ids_below_def new_MatchingEngine_def)
    show "unat (next_order_id new_MatchingEngine) + length reqs < 2 ^ 64"
      using assms(2) by (simp add: new_MatchingEngine_def)
  qed
  with assms(3) show ?thesis by (simp add: books_ordered_def)
qed

section \<open>Properties\<close>

subsection \<open>Example states\<close>

text \<open>Books and an engine used in the counterexamples and witnesses below. A book with one
  resting buy order (id 1, 10 at 50000), and the same book after a sell of 10 at 50000 has
  filled that order:\<close>

definition one_bid_book :: OrderBook where
  "one_bid_book =
     add_order (new_OrderBook ''BTC-USD'') (new_Order 1 100 ''BTC-USD'' BUY (Fin 50000) 10)"

definition filled_bid_book :: OrderBook where
  "filled_bid_book =
     fst (snd (process_order one_bid_book (new_Order 2 101 ''BTC-USD'' SELL (Fin 50000) 10)))"

text \<open>An engine after one submit (id 1, buy 10 at 50000). The order rests, so the call
  reads no released object and its last argument plays no part:\<close>

definition one_order_engine :: MatchingEngine where
  "one_order_engine =
     snd (snd (submit_order new_MatchingEngine 100 ''BTC-USD'' BUY (Fin 50000) 10 True))"

text \<open>A book whose best bid (id 1, 10 at 50000) is cancelled, above a live bid (id 2, 5 at
  49999), and a sell that crosses both:\<close>

definition cancelled_top_book :: OrderBook where
  "cancelled_top_book =
     snd (cancel_order
       (add_order (add_order (new_OrderBook ''BTC-USD'')
          (new_Order 1 100 ''BTC-USD'' BUY (Fin 50000) 10))
          (new_Order 2 101 ''BTC-USD'' BUY (Fin 49999) 5)) 1)"

definition crossing_sell :: Order where
  "crossing_sell = new_Order 3 102 ''BTC-USD'' SELL (Fin 49999) 5"

text \<open>The same two bids after a sell of 10 at 50000 has filled the best bid (id 1):\<close>

definition filled_top_book :: OrderBook where
  "filled_top_book =
     fst (snd (process_order
       (add_order (add_order (new_OrderBook ''BTC-USD'')
          (new_Order 1 100 ''BTC-USD'' BUY (Fin 50000) 10))
          (new_Order 2 101 ''BTC-USD'' BUY (Fin 49999) 5))
       (new_Order 3 102 ''BTC-USD'' SELL (Fin 50000) 10)))"

text \<open>Bids at two prices, two bids at one price with different quantities, asks at two
  prices, and two bids at one price with the same quantity:\<close>

definition two_level_bids :: OrderBook where
  "two_level_bids =
     add_order (add_order (new_OrderBook ''BTC-USD'')
        (new_Order 1 100 ''BTC-USD'' BUY (Fin 50000) 5))
        (new_Order 2 101 ''BTC-USD'' BUY (Fin 50001) 3)"

definition same_price_bids :: OrderBook where
  "same_price_bids =
     add_order (add_order (new_OrderBook ''BTC-USD'')
        (new_Order 1 100 ''BTC-USD'' BUY (Fin 50000) 5))
        (new_Order 2 101 ''BTC-USD'' BUY (Fin 50000) 7)"

definition two_level_asks :: OrderBook where
  "two_level_asks =
     add_order (add_order (new_OrderBook ''BTC-USD'')
        (new_Order 1 100 ''BTC-USD'' SELL (Fin 50001) 5))
        (new_Order 2 101 ''BTC-USD'' SELL (Fin 50000) 3)"

definition two_equal_bids :: OrderBook where
  "two_equal_bids =
     add_order (add_order (new_OrderBook ''BTC-USD'')
        (new_Order 1 100 ''BTC-USD'' BUY (Fin 50000) 5))
        (new_Order 2 101 ''BTC-USD'' BUY (Fin 50000) 5)"

subsection \<open>C1: the sweep of scenario C\<close>

text \<open>
  C1. From an empty engine, three sells (3 at 50000, 4 at 50001, 5 at 50002) and then a
  buy of 15 at 50003, all on one symbol, get the order ids 1, 2, 3 and 4. The buy produces
  exactly three trades, in this order: 3 at 50000 against order 1, 4 at 50001 against
  order 2, 5 at 50002 against order 3. Afterwards the buy order is the only pointer on the
  bid side and rests with 15 - 12 = 3 remaining, the best bid is 50003 and the best ask is
  the sentinel 0 of an empty side. This holds for every symbol. All four orders rest after
  their call, so no call reads a released object: the result is the same for all values
  \<open>r1\<close>, ..., \<open>r4\<close> of the last argument.
\<close>

theorem scenario_C_sweep:
  "(case submit_order new_MatchingEngine 101 symb SELL (Fin 50000) 3 r1 of (id1, ts1, e1) \<Rightarrow>
    case submit_order e1 102 symb SELL (Fin 50001) 4 r2 of (id2, ts2, e2) \<Rightarrow>
    case submit_order e2 103 symb SELL (Fin 50002) 5 r3 of (id3, ts3, e3) \<Rightarrow>
    case submit_order e3 100 symb BUY (Fin 50003) 15 r4 of (id4, ts4, e4) \<Rightarrow>
      id1 = 1 \<and> id2 = 2 \<and> id3 = 3 \<and> id4 = 4 \<and>
      ts4 =
        [\<lparr>trade_id = 1, taker_order_id = 4, maker_order_id = 1, taker_client_id = 100,
          maker_client_id = 101, t_symbol = symb, t_price = Fin 50000, t_quantity = 3\<rparr>,
         \<lparr>trade_id = 2, taker_order_id = 4, maker_order_id = 2, taker_client_id = 100,
          maker_client_id = 102, t_symbol = symb, t_price = Fin 50001, t_quantity = 4\<rparr>,
         \<lparr>trade_id = 3, taker_order_id = 4, maker_order_id = 3, taker_client_id = 100,
          maker_client_id = 103, t_symbol = symb, t_price = Fin 50002, t_quantity = 5\<rparr>] \<and>
      (case order_books e4 symb of
         None \<Rightarrow> False
       | Some book \<Rightarrow>
           bids book = [4] \<and> asks book = [] \<and>
           orders book 4 =
             Some \<lparr>order_id = 4, client_id = 100, symbol = symb, side = BUY, otype = LIMIT,
                   price = Fin 50003, quantity = 15, filled_quantity = 12,
                   status = PARTIALLY_FILLED\<rparr> \<and>
           remaining_quantity (deref (orders book) 4) = 3) \<and>
      engine_get_best_bid e4 symb = Fin 50003 \<and>
      engine_get_best_ask e4 symb = Fin 0)"
  by (simp add: order_defs heap_defs book_defs loop_simps engine_defs Let_def)

subsection \<open>C2: price and quantity of a trade\<close>

text \<open>
  C2. Every trade that \<^verbatim>\<open>process_order\<close> returns was produced by an iteration of the
  match loop, at a state \<open>(b1, inc1)\<close> that the loop reached; at that moment the top
  order of the opposite queue is the maker, the trade's price is the maker's limit price
  and the trade's quantity is the minimum of the incoming order's and the maker's remaining
  quantity. The book \<open>b\<close> is arbitrary, so this holds in every book that a sequence of
  submits and cancels can build.
\<close>

theorem trade_at_maker_price_min_quantity:
  assumes "t \<in> set (fst (process_order b inc))"
  shows "\<exists>b1 inc1 b2 inc2 top_order.
           match_reaches (side inc) b inc b1 inc1 \<and>
           match_iteration (side inc) b1 inc1 = Match b2 inc2 t \<and>
           resting_top_order (side inc) b1 = Some top_order \<and>
           maker_order_id t = order_id top_order \<and>
           taker_order_id t = order_id inc \<and>
           t_price t = price top_order \<and>
           t_quantity t = min (remaining_quantity inc1) (remaining_quantity top_order)"
proof -
  from assms have "t \<in> set (fst (match_side (side inc) b inc []))"
    by (simp add: fst_process_order)
  with match_side_trades [OF match_reaches.start, of t "side inc" b inc "[]"]
  obtain b1 inc1 b2 inc2 where r: "match_reaches (side inc) b inc b1 inc1"
    and m: "match_iteration (side inc) b1 inc1 = Match b2 inc2 t"
    by auto
  from match_iteration_trade [OF m] match_reaches_order_id [OF r] r m
  show ?thesis by auto
qed

theorem trade_at_maker_price_min_quantity_witness:
  "\<lparr>trade_id = 1, taker_order_id = 2, maker_order_id = 1, taker_client_id = 101,
     maker_client_id = 100, t_symbol = ''BTC-USD'', t_price = Fin 50000, t_quantity = 4\<rparr>
     \<in> set (fst (process_order one_bid_book (new_Order 2 101 ''BTC-USD'' SELL (Fin 49000) 4))) \<and>
   (\<exists>b1 inc1 b2 inc2 top_order.
      match_reaches SELL one_bid_book (new_Order 2 101 ''BTC-USD'' SELL (Fin 49000) 4) b1 inc1 \<and>
      match_iteration SELL b1 inc1 = Match b2 inc2
        \<lparr>trade_id = 1, taker_order_id = 2, maker_order_id = 1, taker_client_id = 101,
         maker_client_id = 100, t_symbol = ''BTC-USD'', t_price = Fin 50000, t_quantity = 4\<rparr> \<and>
      resting_top_order SELL b1 = Some top_order \<and>
      order_id top_order = 1 \<and> price top_order = Fin 50000 \<and>
      min (remaining_quantity inc1) (remaining_quantity top_order) = 4)"
proof -
  have h: "\<lparr>trade_id = 1, taker_order_id = 2, maker_order_id = 1, taker_client_id = 101,
     maker_client_id = 100, t_symbol = ''BTC-USD'', t_price = Fin 50000, t_quantity = 4\<rparr>
     \<in> set (fst (process_order one_bid_book (new_Order 2 101 ''BTC-USD'' SELL (Fin 49000) 4)))"
    by (simp add: one_bid_book_def order_defs heap_defs book_defs loop_simps Let_def)
  from trade_at_maker_price_min_quantity [OF h] h show ?thesis
    by (simp add: new_Order_def eq_commute [where a = "Fin 50000"])
qed

subsection \<open>C3: time priority among equal prices\<close>

text \<open>
  C3, as stated, fails. Six buys of 5 on one symbol, at 30000, NaN, 20000, 50000, 10000 and
  50000, get the ids 1 to 6 and all rest: there is no ask, and nothing checks the price.
  The comparator puts the NaN order neither below nor above any other, so the fourth
  order, pushed under it, stays there, while the sixth moves up to the front: the vector
  of the bids is 6, 2, 1, 4, 5, 3. Orders 4 and 6 are both active at exactly 50000. A sell
  of 1 at 50000 then produces one trade, and its maker is order 6, not order 4.
\<close>

theorem nan_breaks_time_priority_counterexample:
  "(case submit_order new_MatchingEngine 100 ''BTC-USD'' BUY (Fin 30000) 5 True of
      (id1, ts1, e1) \<Rightarrow>
    case submit_order e1 100 ''BTC-USD'' BUY NaN 5 True of (id2, ts2, e2) \<Rightarrow>
    case submit_order e2 100 ''BTC-USD'' BUY (Fin 20000) 5 True of (id3, ts3, e3) \<Rightarrow>
    case submit_order e3 100 ''BTC-USD'' BUY (Fin 50000) 5 True of (id4, ts4, e4) \<Rightarrow>
    case submit_order e4 100 ''BTC-USD'' BUY (Fin 10000) 5 True of (id5, ts5, e5) \<Rightarrow>
    case submit_order e5 100 ''BTC-USD'' BUY (Fin 50000) 5 True of (id6, ts6, e6) \<Rightarrow>
    case submit_order e6 101 ''BTC-USD'' SELL (Fin 50000) 1 True of (id7, ts7, e7) \<Rightarrow>
      id4 = 4 \<and> id6 = 6 \<and>
      (case order_books e6 ''BTC-USD'' of
         None \<Rightarrow> False
       | Some book \<Rightarrow>
           bids book = [6, 2, 1, 4, 5, 3] \<and>
           price (deref (orders book) 4) = Fin 50000 \<and> is_active (deref (orders book) 4) \<and>
           price (deref (orders book) 6) = Fin 50000 \<and> is_active (deref (orders book) 6)) \<and>
      map maker_order_id ts7 = [6])"
  by (simp add: order_defs heap_defs book_defs loop_simps engine_defs Let_def is_active_def)

text \<open>
  C3, amended. Let the queue that the incoming order is matched against be ordered: no
  order in it has a NaN price, and it is a heap for its comparator. Let \<open>pa\<close> and \<open>pb\<close>
  be two orders resting in it (in a book with valid pointers a pointer is the order id),
  at exactly the same price, \<open>pa\<close> with the smaller order id and not cancelled. Then
  \<^verbatim>\<open>process_order\<close> never matches \<open>pb\<close> before \<open>pa\<close>: whenever a trade of the result
  has the maker \<open>pb\<close>, a trade with the maker \<open>pa\<close> stands before it. Every book of an
  engine that fewer than \<open>2^64 - 1\<close> submits and cancels have built, none of them with
  a NaN price, has valid pointers and two ordered queues. In particular, from an empty
  engine, after two buys of 5 at 50000 have got the ids 1 and 2, a sell of 5 at 50000
  produces exactly one trade, and its maker is order 1.
\<close>

theorem price_time_priority:
  "(ptrs_valid b \<and>
    queue_ordered (orders b) (resting_cmp (side inc)) (resting_queue (side inc) b) \<and>
    pa \<in> set (resting_queue (side inc) b) \<and>
    pb \<in> set (resting_queue (side inc) b) \<and>
    price (deref (orders b) pa) = price (deref (orders b) pb) \<and> pa < pb \<and>
    status (deref (orders b) pa) \<noteq> CANCELLED \<and>
    fst (process_order b inc) = pre @ t # post \<and> maker_order_id t = pb
    \<longrightarrow> pa \<in> maker_order_id ` set pre) \<and>
   (list_all no_nan_price reqs \<and> length reqs < 2 ^ 64 - 1 \<and>
    order_books (run reqs) symb' = Some b'
    \<longrightarrow> ptrs_valid b' \<and> book_ordered b') \<and>
   (case submit_order new_MatchingEngine client_a symb BUY (Fin 50000) 5 r1 of (id1, ts1, e1) \<Rightarrow>
    case submit_order e1 client_b symb BUY (Fin 50000) 5 r2 of (id2, ts2, e2) \<Rightarrow>
    case submit_order e2 client_c symb SELL (Fin 50000) 5 r3 of (id3, ts3, e3) \<Rightarrow>
      id1 = 1 \<and> id2 = 2 \<and> map maker_order_id ts3 = [1])"
proof (intro conjI)
  show "ptrs_valid b \<and>
    queue_ordered (orders b) (resting_cmp (side inc)) (resting_queue (side inc) b) \<and>
    pa \<in> set (resting_queue (side inc) b) \<and>
    pb \<in> set (resting_queue (side inc) b) \<and>
    price (deref (orders b) pa) = price (deref (orders b) pb) \<and> pa < pb \<and>
    status (deref (orders b) pa) \<noteq> CANCELLED \<and>
    fst (process_order b inc) = pre @ t # post \<and> maker_order_id t = pb
    \<longrightarrow> pa \<in> maker_order_id ` set pre"
    using fifo_core [of pa pb "side inc" b inc]
    by (simp add: fifo_inv_def fst_process_order)
  show "list_all no_nan_price reqs \<and> length reqs < 2 ^ 64 - 1 \<and>
    order_books (run reqs) symb' = Some b'
    \<longrightarrow> ptrs_valid b' \<and> book_ordered b'"
    using ptrs_valid_run [of reqs symb' b'] book_ordered_run [of reqs symb' b'] by simp
  show "case submit_order new_MatchingEngine client_a symb BUY (Fin 50000) 5 r1 of
      (id1, ts1, e1) \<Rightarrow>
    case submit_order e1 client_b symb BUY (Fin 50000) 5 r2 of (id2, ts2, e2) \<Rightarrow>
    case submit_order e2 client_c symb SELL (Fin 50000) 5 r3 of (id3, ts3, e3) \<Rightarrow>
      id1 = 1 \<and> id2 = 2 \<and> map maker_order_id ts3 = [1]"
    by (simp add: order_defs heap_defs book_defs loop_simps engine_defs Let_def)
qed

theorem price_time_priority_witness:
  "ptrs_valid two_equal_bids \<and>
   queue_ordered (orders two_equal_bids) (resting_cmp SELL) (resting_queue SELL two_equal_bids) \<and>
   1 \<in> set (resting_queue SELL two_equal_bids) \<and>
   2 \<in> set (resting_queue SELL two_equal_bids) \<and>
   price (deref (orders two_equal_bids) 1) = price (deref (orders two_equal_bids) 2) \<and>
   (1 :: u64) < 2 \<and>
   status (deref (orders two_equal_bids) 1) \<noteq> CANCELLED \<and>
   map maker_order_id
     (fst (process_order two_equal_bids (new_Order 3 102 ''BTC-USD'' SELL (Fin 50000) 10)))
     = [1, 2] \<and>
   1 \<in> maker_order_id `
     set (take 1 (fst (process_order two_equal_bids
       (new_Order 3 102 ''BTC-USD'' SELL (Fin 50000) 10)))) \<and>
   list_all no_nan_price
     [Submit 100 ''BTC-USD'' BUY (Fin 50000) 5 True, Submit 101 ''BTC-USD'' BUY (Fin 50000) 5 True] \<and>
   order_books
     (run [Submit 100 ''BTC-USD'' BUY (Fin 50000) 5 True,
           Submit 101 ''BTC-USD'' BUY (Fin 50000) 5 True]) ''BTC-USD'' = Some two_equal_bids \<and>
   book_ordered two_equal_bids"
proof -
  let ?inc = "new_Order 3 102 ''BTC-USD'' SELL (Fin 50000) 10"
  let ?t1 = "\<lparr>trade_id = 1, taker_order_id = 3, maker_order_id = 1, taker_client_id = 102,
     maker_client_id = 100, t_symbol = ''BTC-USD'', t_price = Fin 50000, t_quantity = 5\<rparr>"
  let ?t2 = "\<lparr>trade_id = 2, taker_order_id = 3, maker_order_id = 2, taker_client_id = 102,
     maker_client_id = 101, t_symbol = ''BTC-USD'', t_price = Fin 50000, t_quantity = 5\<rparr>"
  let ?reqs = "[Submit 100 ''BTC-USD'' BUY (Fin 50000) 5 True,
                Submit 101 ''BTC-USD'' BUY (Fin 50000) 5 True]"
  have v: "ptrs_valid two_equal_bids"
    by (simp add: ptrs_valid_def two_equal_bids_def order_defs heap_defs book_defs)
  have q: "resting_queue (side ?inc) two_equal_bids = [1, 2]"
    by (simp add: resting_queue_def two_equal_bids_def order_defs heap_defs book_defs)
  have o: "queue_ordered (orders two_equal_bids) (resting_cmp (side ?inc)) [1, 2]"
    by (simp add: queue_ordered_def is_heap_def resting_cmp_def two_equal_bids_def order_defs
          heap_defs book_defs)
  have pr: "price (deref (orders two_equal_bids) 1) = price (deref (orders two_equal_bids) 2)"
    "status (deref (orders two_equal_bids) 1) \<noteq> CANCELLED"
    by (simp_all add: two_equal_bids_def order_defs heap_defs book_defs)
  have ts: "fst (process_order two_equal_bids ?inc) = [?t1] @ ?t2 # []"
    by (simp add: two_equal_bids_def order_defs heap_defs book_defs loop_simps Let_def)
  have fp: "list_all no_nan_price ?reqs" "length ?reqs < 2 ^ 64 - 1"
    by simp_all
  have rn: "order_books (run ?reqs) ''BTC-USD'' = Some two_equal_bids"
    by (simp add: run_def two_equal_bids_def order_defs heap_defs book_defs loop_simps
          engine_defs Let_def)
  note inst = price_time_priority [where b = two_equal_bids and inc = ?inc and pa = 1 and pb = 2
      and pre = "[?t1]" and t = ?t2 and post = "[]" and reqs = ?reqs and symb' = "''BTC-USD''"
      and b' = two_equal_bids]
  have "1 \<in> maker_order_id ` set [?t1]" "book_ordered two_equal_bids"
    using inst v q o pr ts fp rn by simp_all
  with v q o pr ts fp rn show ?thesis
    by (simp add: new_Order_def)
qed

subsection \<open>C4: what \<^verbatim>\<open>OrderBook::cancel_order\<close> reports\<close>

text \<open>
  C4, as stated, fails: \<^verbatim>\<open>cancel_order\<close> on an order that is already CANCELLED returns
  true, and on an order that is FILLED it returns true and overwrites the status with
  CANCELLED.
\<close>

theorem cancel_order_terminal_counterexample:
  "status (deref (orders (snd (cancel_order one_bid_book 1))) 1) = CANCELLED \<and>
   \<not> is_active (deref (orders (snd (cancel_order one_bid_book 1))) 1) \<and>
   fst (cancel_order (snd (cancel_order one_bid_book 1)) 1) \<and>
   status (deref (orders filled_bid_book) 1) = FILLED \<and>
   \<not> is_active (deref (orders filled_bid_book) 1) \<and>
   fst (cancel_order filled_bid_book 1) \<and>
   status (deref (orders (snd (cancel_order filled_bid_book 1))) 1) = CANCELLED"
  by (simp add: one_bid_book_def filled_bid_book_def order_defs heap_defs book_defs loop_simps
        Let_def is_active_def)

text \<open>
  C4, amended. \<^verbatim>\<open>OrderBook::cancel_order\<close> returns true if and only if the book's map
  of orders has a record with that id, whatever its status. For an absent id it returns
  false and changes no state; for a present id the only change is that the status of that
  record becomes CANCELLED.
\<close>

theorem cancel_order_record_exists:
  "(fst (cancel_order b oid) \<longleftrightarrow> orders b oid \<noteq> None) \<and>
   (orders b oid = None \<longrightarrow> snd (cancel_order b oid) = b) \<and>
   (\<forall>ord. orders b oid = Some ord \<longrightarrow>
      snd (cancel_order b oid) = b\<lparr>orders := (orders b)(oid \<mapsto> ord\<lparr>status := CANCELLED\<rparr>)\<rparr>)"
  by (simp add: cancel_order_def cancel_def split: option.splits)

theorem cancel_order_record_exists_witness:
  "orders one_bid_book 999 = None \<and>
   \<not> fst (cancel_order one_bid_book 999) \<and>
   snd (cancel_order one_bid_book 999) = one_bid_book \<and>
   orders one_bid_book 1 = Some (new_Order 1 100 ''BTC-USD'' BUY (Fin 50000) 10) \<and>
   fst (cancel_order one_bid_book 1) \<and>
   snd (cancel_order one_bid_book 1) =
     one_bid_book\<lparr>orders := (orders one_bid_book)
        (1 \<mapsto> (new_Order 1 100 ''BTC-USD'' BUY (Fin 50000) 10)\<lparr>status := CANCELLED\<rparr>)\<rparr>"
proof -
  have absent: "orders one_bid_book 999 = None"
    by (simp add: one_bid_book_def order_defs book_defs)
  have present: "orders one_bid_book 1 = Some (new_Order 1 100 ''BTC-USD'' BUY (Fin 50000) 10)"
    by (simp add: one_bid_book_def order_defs book_defs)
  show ?thesis
    using absent present cancel_order_record_exists [of one_bid_book 999]
      cancel_order_record_exists [of one_bid_book 1]
    by simp
qed

subsection \<open>C5: cancelling twice\<close>

text \<open>
  C5, as stated, fails on the counters: after one order is submitted, one cancel leaves
  \<open>cancelled_orders = 1\<close> and \<open>active_orders = 0\<close>; a second cancel of the same id
  leaves \<open>cancelled_orders = 2\<close> and \<open>active_orders = 2^64 - 1\<close>.
\<close>

theorem engine_cancel_twice_counterexample:
  "cancelled_orders (get_stats (snd (engine_cancel_order one_order_engine 1))) = 1 \<and>
   cancelled_orders (get_stats (snd (engine_cancel_order
      (snd (engine_cancel_order one_order_engine 1)) 1))) = 2 \<and>
   active_orders (get_stats (snd (engine_cancel_order one_order_engine 1))) = 0 \<and>
   active_orders (get_stats (snd (engine_cancel_order
      (snd (engine_cancel_order one_order_engine 1)) 1))) = 18446744073709551615"
  by (simp add: one_order_engine_def order_defs heap_defs book_defs loop_simps engine_defs
        Let_def)

text \<open>
  C5, amended. For every engine state and order id, a second
  \<^verbatim>\<open>MatchingEngine::cancel_order\<close> right after the first returns the same boolean and
  leaves the books (so the best bid, the best ask and the levels of every symbol) and the
  id-to-symbol index as the first call left them; \<open>cancelled_orders\<close> counts every
  successful call, so the second call adds one more when the first returned true.
\<close>

theorem engine_cancel_twice:
  "(case engine_cancel_order e oid of (r1, e1) \<Rightarrow>
    case engine_cancel_order e1 oid of (r2, e2) \<Rightarrow>
      r2 = r1 \<and> order_books e2 = order_books e1 \<and>
      order_to_symbol e2 = order_to_symbol e1 \<and>
      (\<forall>symb n.
         engine_get_best_bid e2 symb = engine_get_best_bid e1 symb \<and>
         engine_get_best_ask e2 symb = engine_get_best_ask e1 symb \<and>
         engine_get_bid_levels e2 symb n = engine_get_bid_levels e1 symb n \<and>
         engine_get_ask_levels e2 symb n = engine_get_ask_levels e1 symb n) \<and>
      cancelled_orders (get_stats e2) = cancelled_orders (get_stats e1) + (if r1 then 1 else 0))"
  by (auto simp: engine_cancel_order_def cancel_order_def cancel_def Let_def
        engine_get_best_bid_def engine_get_best_ask_def engine_get_bid_levels_def
        engine_get_ask_levels_def get_stats_def split: option.splits)

subsection \<open>C6: terminal statuses\<close>

text \<open>
  C6, as stated, fails: \<^verbatim>\<open>Order::fill\<close> on a CANCELLED order with 10 remaining fills 5
  and sets the status PARTIALLY\_FILLED, and \<^verbatim>\<open>Order::cancel\<close> on a FILLED order sets
  the status CANCELLED.
\<close>

theorem fill_cancel_not_terminal_counterexample:
  "fill \<lparr>order_id = 1, client_id = 100, symbol = ''BTC-USD'', side = BUY, otype = LIMIT,
         price = Fin 50000, quantity = 10, filled_quantity = 0, status = CANCELLED\<rparr> 5 =
     \<lparr>order_id = 1, client_id = 100, symbol = ''BTC-USD'', side = BUY, otype = LIMIT,
      price = Fin 50000, quantity = 10, filled_quantity = 5, status = PARTIALLY_FILLED\<rparr> \<and>
   cancel \<lparr>order_id = 1, client_id = 100, symbol = ''BTC-USD'', side = BUY, otype = LIMIT,
         price = Fin 50000, quantity = 10, filled_quantity = 10, status = FILLED\<rparr> =
     \<lparr>order_id = 1, client_id = 100, symbol = ''BTC-USD'', side = BUY, otype = LIMIT,
      price = Fin 50000, quantity = 10, filled_quantity = 10, status = CANCELLED\<rparr>"
  by (simp add: order_defs Let_def)

text \<open>
  C6, amended. \<^verbatim>\<open>Order::cancel\<close> sets the status CANCELLED whatever it was (so a FILLED
  order becomes CANCELLED) and leaves \<open>filled_quantity\<close> alone. \<^verbatim>\<open>Order::fill\<close>
  changes nothing on a FILLED order whose \<open>filled_quantity\<close> equals its \<open>quantity\<close>.
  Inside a book, \<^verbatim>\<open>process_order\<close> (for an incoming order with another id) leaves every
  record that is CANCELLED, or FILLED with nothing remaining, exactly as it is, status and
  \<open>filled_quantity\<close> included: \<^verbatim>\<open>Order::fill\<close> itself checks no status, but the match
  loop pops a cancelled top order without filling it. \<^verbatim>\<open>cancel_order\<close> leaves a
  CANCELLED record as it is.
\<close>

theorem terminal_statuses_in_book:
  "status (cancel ord) = CANCELLED \<and> filled_quantity (cancel ord) = filled_quantity ord \<and>
   (status ord = FILLED \<and> filled_quantity ord = quantity ord \<longrightarrow> fill ord n = ord) \<and>
   (orders b oid = Some ord \<and> order_id inc \<noteq> oid \<and>
    (status ord = CANCELLED \<or> status ord = FILLED \<and> filled_quantity ord = quantity ord) \<longrightarrow>
      orders (fst (snd (process_order b inc))) oid = Some ord) \<and>
   (orders b oid = Some ord \<and> status ord = CANCELLED \<longrightarrow>
      orders (snd (cancel_order b oid')) oid = Some ord)"
proof -
  have "fill ord n = ord" if "status ord = FILLED" "filled_quantity ord = quantity ord"
    using that fill_complete [of ord n] by simp
  moreover have "orders b oid = Some ord \<Longrightarrow> status ord = CANCELLED \<Longrightarrow>
      orders (snd (cancel_order b oid')) oid = Some ord"
    by (cases "orders b oid'") (auto simp: cancel_order_def cancel_def)
  ultimately show ?thesis
    using process_order_keeps_terminal [of b oid ord inc]
    by (simp add: cancel_def terminal_def)
qed

theorem terminal_statuses_in_book_witness:
  "orders cancelled_top_book 1 =
     Some ((new_Order 1 100 ''BTC-USD'' BUY (Fin 50000) 10)\<lparr>status := CANCELLED\<rparr>) \<and>
   order_id crossing_sell \<noteq> 1 \<and>
   map maker_order_id (fst (process_order cancelled_top_book crossing_sell)) = [2] \<and>
   orders (fst (snd (process_order cancelled_top_book crossing_sell))) 1 =
     Some ((new_Order 1 100 ''BTC-USD'' BUY (Fin 50000) 10)\<lparr>status := CANCELLED\<rparr>) \<and>
   orders (snd (cancel_order cancelled_top_book 1)) 1 =
     Some ((new_Order 1 100 ''BTC-USD'' BUY (Fin 50000) 10)\<lparr>status := CANCELLED\<rparr>) \<and>
   orders filled_top_book 1 =
     Some ((new_Order 1 100 ''BTC-USD'' BUY (Fin 50000) 10)
            \<lparr>filled_quantity := 10, status := FILLED\<rparr>) \<and>
   map maker_order_id (fst (process_order filled_top_book crossing_sell)) = [2] \<and>
   orders (fst (snd (process_order filled_top_book crossing_sell))) 1 =
     Some ((new_Order 1 100 ''BTC-USD'' BUY (Fin 50000) 10)
            \<lparr>filled_quantity := 10, status := FILLED\<rparr>) \<and>
   fill ((new_Order 1 100 ''BTC-USD'' BUY (Fin 50000) 10)
            \<lparr>filled_quantity := 10, status := FILLED\<rparr>) 4 =
     (new_Order 1 100 ''BTC-USD'' BUY (Fin 50000) 10)\<lparr>filled_quantity := 10, status := FILLED\<rparr>"
proof -
  let ?c = "(new_Order 1 100 ''BTC-USD'' BUY (Fin 50000) 10)\<lparr>status := CANCELLED\<rparr>"
  let ?f = "(new_Order 1 100 ''BTC-USD'' BUY (Fin 50000) 10)
              \<lparr>filled_quantity := 10, status := FILLED\<rparr>"
  have resting: "orders cancelled_top_book 1 = Some ?c"
    by (simp add: cancelled_top_book_def order_defs heap_defs book_defs)
  have other: "order_id crossing_sell \<noteq> 1"
    by (simp add: crossing_sell_def order_defs)
  have trades: "map maker_order_id (fst (process_order cancelled_top_book crossing_sell)) = [2]"
    by (simp add: cancelled_top_book_def crossing_sell_def order_defs heap_defs book_defs
          loop_simps Let_def)
  have filled: "orders filled_top_book 1 = Some ?f"
    by (simp add: filled_top_book_def order_defs heap_defs book_defs loop_simps Let_def)
  have trades': "map maker_order_id (fst (process_order filled_top_book crossing_sell)) = [2]"
    by (simp add: filled_top_book_def crossing_sell_def order_defs heap_defs book_defs
          loop_simps Let_def)
  have st: "status ?c = CANCELLED" "status ?f = FILLED" "filled_quantity ?f = quantity ?f"
    by (simp_all add: order_defs)
  show ?thesis
    using resting other trades filled trades' st
      terminal_statuses_in_book [of ?c _ cancelled_top_book 1 crossing_sell 1]
      terminal_statuses_in_book [of ?f 4 filled_top_book 1 crossing_sell]
    by (simp add: new_Order_def)
qed

subsection \<open>C7: \<open>active_orders\<close> after a cancel of a terminal order\<close>

text \<open>
  C7 fails on the code. One order is submitted and cancelled twice. Both cancels succeed,
  each decrements \<open>active_orders\<close>, and the counter wraps to \<open>2^64 - 1\<close>, while the only
  book holds the only order, which is CANCELLED: the number of active orders is 0.
\<close>

theorem active_orders_after_double_cancel:
  "(case engine_cancel_order (snd (engine_cancel_order one_order_engine 1)) 1 of
      (r, e) \<Rightarrow>
        r \<and> active_orders (get_stats e) = 18446744073709551615 \<and>
        dom (order_books e) = {''BTC-USD''} \<and>
        (case order_books e ''BTC-USD'' of
           None \<Rightarrow> False
         | Some book \<Rightarrow>
             dom (orders book) = {1} \<and> status (deref (orders book) 1) = CANCELLED \<and>
             \<not> is_active (deref (orders book) 1)))"
  by (simp add: one_order_engine_def order_defs heap_defs book_defs loop_simps engine_defs
        Let_def is_active_def)

subsection \<open>C8: the levels of a side\<close>

text \<open>
  C8 fails on the code, in two ways. The result is read out of a
  \<^verbatim>\<open>std::map<double, BookLevel>\<close> in ascending order of the price, on both sides. That
  is best first for asks (asks at 50001 and 50000 come out as 50000, 50001), but with bids
  at 50000 and 50001 the best bid is 50001 and \<^verbatim>\<open>get_bid_levels(10)\<close> returns the level
  50000 first. And the loop stops as soon as the map has \<open>max_levels\<close> keys, that is
  right after the first order of the last level: with two bids of 5 and 7 at 50000,
  \<^verbatim>\<open>get_bid_levels(1)\<close> returns quantity 5 and count 1, where \<^verbatim>\<open>get_bid_levels(2)\<close>
  returns quantity 12 and count 2 for the same level.
\<close>

theorem bid_levels_order_and_cut:
  "get_best_bid two_level_bids = Fin 50001 \<and>
   get_bid_levels two_level_bids 10 =
     [\<lparr>l_price = Fin 50000, l_quantity = 5, order_count = 1\<rparr>,
      \<lparr>l_price = Fin 50001, l_quantity = 3, order_count = 1\<rparr>] \<and>
   get_best_ask two_level_asks = Fin 50000 \<and>
   get_ask_levels two_level_asks 10 =
     [\<lparr>l_price = Fin 50000, l_quantity = 3, order_count = 1\<rparr>,
      \<lparr>l_price = Fin 50001, l_quantity = 5, order_count = 1\<rparr>] \<and>
   get_bid_levels same_price_bids 1 =
     [\<lparr>l_price = Fin 50000, l_quantity = 5, order_count = 1\<rparr>] \<and>
   get_bid_levels same_price_bids 2 =
     [\<lparr>l_price = Fin 50000, l_quantity = 12, order_count = 2\<rparr>]"
  by (simp add: two_level_bids_def two_level_asks_def same_price_bids_def order_defs heap_defs
        book_defs loop_simps Let_def)

subsection \<open>C9: queries for a symbol without orders\<close>

text \<open>
  C9. After any sequence of submits and cancels on a new engine in which no order was
  submitted for \<open>symb\<close>, the engine has no book for \<open>symb\<close> (it is not among
  \<^verbatim>\<open>get_all_symbols\<close>), and the market-data queries for it return their defaults: 0 for
  the best bid, the best ask and the spread (whatever the subtraction of doubles does),
  the empty list for the bid and the ask levels. The queries are \<^verbatim>\<open>const\<close> member
  functions that look the book up with \<^verbatim>\<open>find\<close>; as functions of the engine state they
  cannot create a book, so the set of symbols is the same before and after them.
\<close>

theorem queries_on_unknown_symbol:
  assumes "list_all (\<lambda>r. \<not> submits_symbol symb r) reqs"
  shows "symb \<notin> get_all_symbols (run reqs) \<and>
         engine_get_best_bid (run reqs) symb = Fin 0 \<and>
         engine_get_best_ask (run reqs) symb = Fin 0 \<and>
         engine_get_spread fsub (run reqs) symb = Fin 0 \<and>
         engine_get_bid_levels (run reqs) symb n = [] \<and>
         engine_get_ask_levels (run reqs) symb n = []"
proof -
  have "order_books (run reqs) symb = None"
    unfolding run_def by (rule foldl_no_new_book [OF assms]) (simp add: new_MatchingEngine_def)
  then show ?thesis
    by (simp add: get_all_symbols_def engine_get_best_bid_def engine_get_best_ask_def
          engine_get_spread_def engine_get_bid_levels_def engine_get_ask_levels_def domIff)
qed

theorem queries_on_unknown_symbol_witness:
  "list_all (\<lambda>r. \<not> submits_symbol ''ETH-USD'' r)
     [Submit 100 ''BTC-USD'' BUY (Fin 50000) 10 True,
      Submit 101 ''BTC-USD'' SELL (Fin 50000) 4 True, Cancel 1] \<and>
   get_all_symbols
     (run [Submit 100 ''BTC-USD'' BUY (Fin 50000) 10 True,
           Submit 101 ''BTC-USD'' SELL (Fin 50000) 4 True, Cancel 1])
     = {''BTC-USD''} \<and>
   engine_get_best_bid
     (run [Submit 100 ''BTC-USD'' BUY (Fin 50000) 10 True,
           Submit 101 ''BTC-USD'' SELL (Fin 50000) 4 True, Cancel 1])
     ''ETH-USD'' = Fin 0 \<and>
   engine_get_bid_levels
     (run [Submit 100 ''BTC-USD'' BUY (Fin 50000) 10 True,
           Submit 101 ''BTC-USD'' SELL (Fin 50000) 4 True, Cancel 1])
     ''ETH-USD'' 10 = []"
proof -
  have h: "list_all (\<lambda>r. \<not> submits_symbol ''ETH-USD'' r)
     [Submit 100 ''BTC-USD'' BUY (Fin 50000) 10 True,
      Submit 101 ''BTC-USD'' SELL (Fin 50000) 4 True, Cancel 1]"
    by simp
  have d: "get_all_symbols
     (run [Submit 100 ''BTC-USD'' BUY (Fin 50000) 10 True,
           Submit 101 ''BTC-USD'' SELL (Fin 50000) 4 True, Cancel 1])
     = {''BTC-USD''}"
    by (simp add: run_def get_all_symbols_def order_defs heap_defs book_defs loop_simps
          engine_defs Let_def)
  show ?thesis
    using h d queries_on_unknown_symbol [OF h, of _ 10] by simp
qed

subsection \<open>C10: a submit with quantity 0\<close>

text \<open>
  C10 fails on the code in one point. \<^verbatim>\<open>submit_order\<close> with quantity 0, on any engine
  state, is not rejected. It returns the current value of the id counter and increments
  the counter; the order counts as filled (\<open>0 \<ge> 0\<close>); there are no trades; the order is
  not stored: the book of the symbol (created empty if there was none) only goes through
  \<^verbatim>\<open>clean_filled_orders\<close>, which keeps its map of orders and adds no pointer to a
  queue; for every symbol and every \<open>n\<close> the best bid, the best ask and the bid and
  ask levels are what they were; \<open>total_orders\<close> grows by one, and \<open>rejected_orders\<close>,
  \<open>total_trades\<close> and \<open>cancelled_orders\<close> are unchanged. But \<open>active_orders\<close>, which
  the call has incremented, is decremented again only if the test of line 37 finds the
  order filled, and that test reads the order object after \<^verbatim>\<open>process_order\<close> has
  released it: \<open>active_orders\<close> is unchanged when the read yields true and one more
  than before when it yields false. On a new engine, two submits of quantity 0 whose reads
  yield false return the ids 1 and 2, leave the book without any order, and leave
  \<open>active_orders = 2\<close>.
\<close>

theorem zero_quantity_submit:
  "(case submit_order e client symb s p 0 stale of
      (oid, trades, e') \<Rightarrow>
        oid = next_order_id e \<and> next_order_id e' = next_order_id e + 1 \<and>
        is_filled (new_Order oid client symb s p 0) \<and>
        trades = [] \<and>
        (let b0 = (case order_books e symb of Some book \<Rightarrow> book | None \<Rightarrow> new_OrderBook symb)
         in order_books e' = (order_books e)(symb \<mapsto> clean_filled_orders b0) \<and>
            orders (clean_filled_orders b0) = orders b0 \<and>
            set (bids (clean_filled_orders b0)) \<subseteq> set (bids b0) \<and>
            set (asks (clean_filled_orders b0)) \<subseteq> set (asks b0)) \<and>
        (\<forall>symb' n.
           engine_get_best_bid e' symb' = engine_get_best_bid e symb' \<and>
           engine_get_best_ask e' symb' = engine_get_best_ask e symb' \<and>
           engine_get_bid_levels e' symb' n = engine_get_bid_levels e symb' n \<and>
           engine_get_ask_levels e' symb' n = engine_get_ask_levels e symb' n) \<and>
        total_orders (get_stats e') = total_orders (get_stats e) + 1 \<and>
        active_orders (get_stats e') =
          (if stale then active_orders (get_stats e) else active_orders (get_stats e) + 1) \<and>
        rejected_orders (get_stats e') = rejected_orders (get_stats e) \<and>
        total_trades (get_stats e') = total_trades (get_stats e) \<and>
        cancelled_orders (get_stats e') = cancelled_orders (get_stats e)) \<and>
   (case submit_order new_MatchingEngine 100 ''BTC-USD'' BUY (Fin 50000) 0 False of
      (id1, ts1, e1) \<Rightarrow>
    case submit_order e1 100 ''BTC-USD'' BUY (Fin 50000) 0 False of
      (id2, ts2, e2) \<Rightarrow>
        id1 = 1 \<and> id2 = 2 \<and> ts1 = [] \<and> ts2 = [] \<and>
        (case order_books e2 ''BTC-USD'' of
           None \<Rightarrow> False
         | Some book \<Rightarrow> dom (orders book) = {} \<and> bids book = [] \<and> asks book = []) \<and>
        total_orders (get_stats e2) = 2 \<and> active_orders (get_stats e2) = 2)"
proof
  show "case submit_order e client symb s p 0 stale of
      (oid, trades, e') \<Rightarrow>
        oid = next_order_id e \<and> next_order_id e' = next_order_id e + 1 \<and>
        is_filled (new_Order oid client symb s p 0) \<and>
        trades = [] \<and>
        (let b0 = (case order_books e symb of Some book \<Rightarrow> book | None \<Rightarrow> new_OrderBook symb)
         in order_books e' = (order_books e)(symb \<mapsto> clean_filled_orders b0) \<and>
            orders (clean_filled_orders b0) = orders b0 \<and>
            set (bids (clean_filled_orders b0)) \<subseteq> set (bids b0) \<and>
            set (asks (clean_filled_orders b0)) \<subseteq> set (asks b0)) \<and>
        (\<forall>symb' n.
           engine_get_best_bid e' symb' = engine_get_best_bid e symb' \<and>
           engine_get_best_ask e' symb' = engine_get_best_ask e symb' \<and>
           engine_get_bid_levels e' symb' n = engine_get_bid_levels e symb' n \<and>
           engine_get_ask_levels e' symb' n = engine_get_ask_levels e symb' n) \<and>
        total_orders (get_stats e') = total_orders (get_stats e) + 1 \<and>
        active_orders (get_stats e') =
          (if stale then active_orders (get_stats e) else active_orders (get_stats e) + 1) \<and>
        rejected_orders (get_stats e') = rejected_orders (get_stats e) \<and>
        total_trades (get_stats e') = total_trades (get_stats e) \<and>
        cancelled_orders (get_stats e') = cancelled_orders (get_stats e)"
  proof (cases "order_books e symb")
    case None
    show ?thesis
      using None queues_clean_filled_orders [of "new_OrderBook symb"]
        clean_filled_orders_observables [of "new_OrderBook symb"]
        new_OrderBook_observables [of symb]
      by (simp add: submit_order_def get_or_create_book_def process_order_zero_quantity Let_def
            is_filled_def new_Order_def engine_get_best_bid_def engine_get_best_ask_def
            engine_get_bid_levels_def engine_get_ask_levels_def get_stats_def)
  next
    case (Some book)
    show ?thesis
      using Some queues_clean_filled_orders [of book] clean_filled_orders_observables [of book]
      by (simp add: submit_order_def get_or_create_book_def process_order_zero_quantity Let_def
            is_filled_def new_Order_def engine_get_best_bid_def engine_get_best_ask_def
            engine_get_bid_levels_def engine_get_ask_levels_def get_stats_def)
  qed
  show "case submit_order new_MatchingEngine 100 ''BTC-USD'' BUY (Fin 50000) 0 False of
      (id1, ts1, e1) \<Rightarrow>
    case submit_order e1 100 ''BTC-USD'' BUY (Fin 50000) 0 False of
      (id2, ts2, e2) \<Rightarrow>
        id1 = 1 \<and> id2 = 2 \<and> ts1 = [] \<and> ts2 = [] \<and>
        (case order_books e2 ''BTC-USD'' of
           None \<Rightarrow> False
         | Some book \<Rightarrow> dom (orders book) = {} \<and> bids book = [] \<and> asks book = []) \<and>
        total_orders (get_stats e2) = 2 \<and> active_orders (get_stats e2) = 2"
    by (simp add: order_defs heap_defs book_defs loop_simps engine_defs Let_def)
qed

end
